theory Spec2Isabelle
  imports Main
begin

section \<open>Python values: exceptions, strings, dictionaries\<close>

text \<open>
  The notebook signals every failure with a built-in Python exception; it declares no
  exception class of its own. A call that raises is modelled as \<open>Inl\<close> of the
  exception's class, a call that returns as \<open>Inr\<close> of the value.
\<close>

datatype exn = KeyError | ValueError | AssertionError | IndexError | TypeError

text \<open>\<^verbatim>\<open>Symbol = str\<close> and \<^verbatim>\<open>SymbolValues = Dict[Symbol, int]\<close>. A string is a
  list of 8-bit characters, which covers every character of the notation; a Python
  integer is an \<open>int\<close>.\<close>

type_synonym Symbol = string
type_synonym SymbolValues = "Symbol \<rightharpoonup> int"

text \<open>Python's \<^verbatim>\<open>str(n)\<close> for an integer: decimal digits, a minus sign when negative.\<close>

definition digit_char :: "nat \<Rightarrow> char" where
  "digit_char d = ''0123456789'' ! d"

fun str_nat :: "nat \<Rightarrow> string" where
  "str_nat n = (if n < 10 then [digit_char n] else str_nat (n div 10) @ [digit_char (n mod 10)])"

declare str_nat.simps [simp del]

definition str_int :: "int \<Rightarrow> string" where
  "str_int i = (if i < 0 then CHR ''-'' # str_nat (nat (- i)) else str_nat (nat i))"

text \<open>
  A \<^verbatim>\<open>dict\<close> keeps its keys in insertion order, and the notebook iterates over
  dictionaries, so a dictionary is an association list: \<open>dict_set\<close> overwrites the value
  of a key that is present, in place, and appends a key that is new.
\<close>

fun dict_set :: "('k \<times> 'v) list \<Rightarrow> 'k \<Rightarrow> 'v \<Rightarrow> ('k \<times> 'v) list" where
  "dict_set [] k v = [(k, v)]"
| "dict_set ((k', v') # d) k v = (if k' = k then (k, v) # d else (k', v') # dict_set d k v)"

definition dict_get :: "('k \<times> 'v) list \<Rightarrow> 'k \<Rightarrow> exn + 'v" where
  "dict_get d k = (case map_of d k of None \<Rightarrow> Inl KeyError | Some v \<Rightarrow> Inr v)"

definition dict_contains :: "('k \<times> 'v) list \<Rightarrow> 'k \<Rightarrow> bool" where
  "dict_contains d k = (map_of d k \<noteq> None)"

text \<open>\<^verbatim>\<open>dict(zip(symbols, values))\<close>: a later pair overrides an earlier one with the same key.\<close>

definition dict_of :: "('k \<times> 'v) list \<Rightarrow> ('k \<rightharpoonup> 'v)" where
  "dict_of kvs = fold (\<lambda>(k, v) m. m(k \<mapsto> v)) kvs Map.empty"

text \<open>\<^verbatim>\<open>xs.index(x)\<close> raises ValueError when \<open>x\<close> is absent; \<^verbatim>\<open>xs.pop(i)\<close> raises
  IndexError when \<open>i\<close> is out of range (the index is never negative here).\<close>

fun list_index :: "'a list \<Rightarrow> 'a \<Rightarrow> exn + nat" where
  "list_index [] x = Inl ValueError"
| "list_index (y # ys) x =
     (if y = x then Inr 0
      else case list_index ys x of Inl e \<Rightarrow> Inl e | Inr i \<Rightarrow> Inr (Suc i))"

definition list_pop :: "'a list \<Rightarrow> nat \<Rightarrow> exn + 'a list" where
  "list_pop xs i = (if i < length xs then Inr (take i xs @ drop (Suc i) xs) else Inl IndexError)"

text \<open>\<^verbatim>\<open>sep.join(xs)\<close>.\<close>

fun join :: "string \<Rightarrow> string list \<Rightarrow> string" where
  "join sep [] = []"
| "join sep [x] = x"
| "join sep (x # y # ys) = x @ sep @ join sep (y # ys)"

text \<open>
  \<^verbatim>\<open>itertools.product(pool, repeat=n)\<close>, as the library documents it: start from the
  one empty tuple and, once per repetition, extend every tuple built so far by every
  element of the pool.
\<close>

definition product_step :: "'a list \<Rightarrow> 'a list list \<Rightarrow> 'a list list" where
  "product_step pool result = concat (map (\<lambda>x. map (\<lambda>y. x @ [y]) pool) result)"

fun product_repeat :: "'a list \<Rightarrow> nat \<Rightarrow> 'a list list" where
  "product_repeat pool 0 = [[]]"
| "product_repeat pool (Suc n) = product_step pool (product_repeat pool n)"

section \<open>Elective functions\<close>

datatype Function =
    SymbolFunction Symbol
  | MultiplicationFunction Function Function
  | NegationFunction Function
  | ConstantFunction int

text \<open>\<^verbatim>\<open>__repr__\<close> of the four classes.\<close>

fun Function_repr :: "Function \<Rightarrow> string" where
  "Function_repr (SymbolFunction symbol) = symbol"
| "Function_repr (MultiplicationFunction left right) = Function_repr left @ Function_repr right"
| "Function_repr (NegationFunction body) = ''(1-'' @ Function_repr body @ '')''"
| "Function_repr (ConstantFunction v) = str_int v"

text \<open>\<^verbatim>\<open>__call__\<close> of the four classes; \<^verbatim>\<open>values[self.symbol]\<close> raises KeyError
  for a missing key, and the left operand of a product is evaluated first.\<close>

fun Function_call :: "Function \<Rightarrow> SymbolValues \<Rightarrow> exn + int" where
  "Function_call (SymbolFunction symbol) vals =
     (case vals symbol of None \<Rightarrow> Inl KeyError | Some v \<Rightarrow> Inr v)"
| "Function_call (MultiplicationFunction left right) vals =
     (case Function_call left vals of
        Inl e \<Rightarrow> Inl e
      | Inr l \<Rightarrow> (case Function_call right vals of Inl e \<Rightarrow> Inl e | Inr r \<Rightarrow> Inr (l * r)))"
| "Function_call (NegationFunction body) vals =
     (case Function_call body vals of Inl e \<Rightarrow> Inl e | Inr b \<Rightarrow> Inr (1 - b))"
| "Function_call (ConstantFunction v) vals = Inr v"

section \<open>The parser\<close>

text \<open>
  \<^verbatim>\<open>matching_parenthesis\<close>: the counter is a Python integer and may go negative; the
  function falls off its end, returning \<^verbatim>\<open>None\<close>, when the counter never comes back
  to zero at a closing parenthesis.
\<close>

fun matching_loop :: "string \<Rightarrow> nat \<Rightarrow> int \<Rightarrow> nat option" where
  "matching_loop [] i count = None"
| "matching_loop (c # cs) i count =
     (if c = CHR ''('' then matching_loop cs (Suc i) (count + 1)
      else if c = CHR '')'' then
        (if count - 1 = 0 then Some i else matching_loop cs (Suc i) (count - 1))
      else matching_loop cs (Suc i) count)"

definition matching_parenthesis :: "string \<Rightarrow> nat option" where
  "matching_parenthesis s = matching_loop s 0 0"

definition is_lower :: "char \<Rightarrow> bool" where
  "is_lower c = (c \<in> set ''abcdefghijklmnopqrstuvwxyz'')"

definition is_01 :: "char \<Rightarrow> bool" where
  "is_01 c = (c = CHR ''0'' \<or> c = CHR ''1'')"

text \<open>
  \<^verbatim>\<open>parse\<close>. The regular expressions \<^verbatim>\<open>[a-z]\<close> and \<^verbatim>\<open>[01]\<close> are matched against a
  string of length one. \<^verbatim>\<open>s[0]\<close> raises IndexError on the empty string, the
  \<^verbatim>\<open>assert\<close> raises AssertionError, and with \<^verbatim>\<open>to = None\<close> the slice
  \<^verbatim>\<open>s[3:to]\<close> is \<^verbatim>\<open>s[3:]\<close>, the test \<^verbatim>\<open>to != len(s) - 1\<close> is true and
  \<^verbatim>\<open>to+1\<close> raises TypeError. Every recursive call is on a shorter string; the
  interpreter's bound on the depth of recursion is not modelled.
\<close>

function parse :: "string \<Rightarrow> exn + Function" where
  "parse s =
    (if length s = 1 then
       (if is_lower (hd s) then Inr (SymbolFunction s)
        else if is_01 (hd s) then Inr (ConstantFunction (if hd s = CHR ''0'' then 0 else 1))
        else Inl ValueError)
     else if s = [] then Inl IndexError
     else if hd s = CHR ''('' then
       (let to = matching_parenthesis s in
        if take 3 s \<noteq> ''(1-'' then Inl AssertionError
        else
          (case parse (case to of None \<Rightarrow> drop 3 s | Some t \<Rightarrow> drop 3 (take t s)) of
             Inl e \<Rightarrow> Inl e
           | Inr inside \<Rightarrow>
               (case to of
                  None \<Rightarrow> Inl TypeError
                | Some t \<Rightarrow>
                    if int t \<noteq> int (length s) - 1 then
                      (case parse (drop (t + 1) s) of
                         Inl e \<Rightarrow> Inl e
                       | Inr right \<Rightarrow> Inr (MultiplicationFunction (NegationFunction inside) right))
                    else Inr (NegationFunction inside))))
     else
       (case parse (take 1 s) of
          Inl e \<Rightarrow> Inl e
        | Inr res \<Rightarrow>
            if int 0 \<noteq> int (length s) - 1 then
              (case parse (drop (0 + 1) s) of
                 Inl e \<Rightarrow> Inl e
               | Inr right \<Rightarrow> Inr (MultiplicationFunction res right))
            else Inr res))"
  by pat_completeness auto
termination
  apply (relation "measure length")
     apply (auto split: option.splits simp: Suc_lessI)
  subgoal for s t by (cases s) auto
  done

declare parse.simps [simp del]


section \<open>Normalized equations\<close>

text \<open>
  \<^verbatim>\<open>class Equation\<close>: the list of symbols and the dictionary of moduli, keyed by the
  tuple of the symbols' values.
\<close>

record Equation =
  symbols :: "Symbol list"
  moduli :: "(int list \<times> int) list"

text \<open>\<^verbatim>\<open>Equation.__repr__\<close>: the inner loop builds one term, the outer loop collects the
  terms of the moduli that are not zero.\<close>

fun term_loop :: "(Symbol \<times> int) list \<Rightarrow> string \<Rightarrow> string" where
  "term_loop [] term = term"
| "term_loop ((symbol, v) # rest) term =
     term_loop rest (if v = 1 then term @ symbol else term @ ''(1-'' @ symbol @ '')'')"

fun terms_loop :: "Symbol list \<Rightarrow> (int list \<times> int) list \<Rightarrow> string list \<Rightarrow> string list" where
  "terms_loop syms [] terms = terms"
| "terms_loop syms ((vals, modulus) # rest) terms =
     terms_loop syms rest
       (if modulus \<noteq> 0 then terms @ [term_loop (zip syms vals) []] else terms)"

definition Equation_repr :: "Equation \<Rightarrow> string" where
  "Equation_repr eq =
     (let terms = terms_loop (symbols eq) (moduli eq) [] in
      if length terms = 0 then ''0 = 0'' else join '' + '' terms @ '' = 0'')"

text \<open>\<^verbatim>\<open>create_normalized_equation\<close>: the loop over \<^verbatim>\<open>itertools.product([0, 1], ...)\<close>
  stops at the first evaluation that raises.\<close>

fun normalize_loop ::
  "Function \<Rightarrow> Function \<Rightarrow> Symbol list \<Rightarrow> int list list \<Rightarrow> (int list \<times> int) list
    \<Rightarrow> exn + (int list \<times> int) list" where
  "normalize_loop lhs rhs syms [] m = Inr m"
| "normalize_loop lhs rhs syms (vals # rest) m =
     (let value_map = dict_of (zip syms vals) in
      case Function_call lhs value_map of
        Inl e \<Rightarrow> Inl e
      | Inr l \<Rightarrow>
          (case Function_call rhs value_map of
             Inl e \<Rightarrow> Inl e
           | Inr r \<Rightarrow>
               normalize_loop lhs rhs syms rest
                 (dict_set m vals (if l - r = 0 then 0 else 1))))"

definition create_normalized_equation ::
  "Function \<Rightarrow> Function \<Rightarrow> Symbol list \<Rightarrow> exn + Equation" where
  "create_normalized_equation lhs rhs syms =
     (case normalize_loop lhs rhs syms (product_repeat [0, 1] (length syms)) [] of
        Inl e \<Rightarrow> Inl e
      | Inr m \<Rightarrow> Inr \<lparr>symbols = syms, moduli = m\<rparr>)"

text \<open>\<^verbatim>\<open>equation_conjunction\<close>: \<^verbatim>\<open>or\<close> does not look \<^verbatim>\<open>key\<close> up in
  \<^verbatim>\<open>b.moduli\<close> when \<^verbatim>\<open>a.moduli[key] == 1\<close>.\<close>

fun conjunction_loop ::
  "(int list \<times> int) list \<Rightarrow> (int list \<times> int) list \<Rightarrow> int list list \<Rightarrow> (int list \<times> int) list
    \<Rightarrow> exn + (int list \<times> int) list" where
  "conjunction_loop am bm [] m = Inr m"
| "conjunction_loop am bm (key # rest) m =
     (case dict_get am key of
        Inl e \<Rightarrow> Inl e
      | Inr av \<Rightarrow>
          if av = 1 then conjunction_loop am bm rest (dict_set m key 1)
          else
            (case dict_get bm key of
               Inl e \<Rightarrow> Inl e
             | Inr bv \<Rightarrow>
                 conjunction_loop am bm rest (dict_set m key (if bv = 1 then 1 else 0))))"

definition equation_conjunction :: "Equation \<Rightarrow> Equation \<Rightarrow> exn + Equation" where
  "equation_conjunction a b =
     (if symbols a \<noteq> symbols b then Inl AssertionError
      else
        (case conjunction_loop (moduli a) (moduli b) (map fst (moduli a)) [] of
           Inl e \<Rightarrow> Inl e
         | Inr m \<Rightarrow> Inr \<lparr>symbols = symbols a, moduli = m\<rparr>))"

text \<open>\<^verbatim>\<open>eliminate_symbol\<close>: the first loop counts, for each tuple with the symbol's value
  removed, the moduli equal to 1; the second turns a count of 2 into the modulus 1.\<close>

fun count_loop ::
  "Symbol list \<Rightarrow> Symbol \<Rightarrow> (int list \<times> int) list \<Rightarrow> (int list \<times> int) list
    \<Rightarrow> exn + (int list \<times> int) list" where
  "count_loop syms symbol [] eliminated_count = Inr eliminated_count"
| "count_loop syms symbol ((vals, modulus) # rest) eliminated_count =
     (case list_index syms symbol of
        Inl e \<Rightarrow> Inl e
      | Inr k \<Rightarrow>
          (case list_pop vals k of
             Inl e \<Rightarrow> Inl e
           | Inr values2 \<Rightarrow>
               (let ec = (if \<not> dict_contains eliminated_count values2
                          then dict_set eliminated_count values2 0 else eliminated_count)
                in if modulus = 1 then
                     (case dict_get ec values2 of
                        Inl e \<Rightarrow> Inl e
                      | Inr c \<Rightarrow> count_loop syms symbol rest (dict_set ec values2 (c + 1)))
                   else count_loop syms symbol rest ec)))"

fun moduli_loop :: "(int list \<times> int) list \<Rightarrow> (int list \<times> int) list \<Rightarrow> (int list \<times> int) list" where
  "moduli_loop [] m = m"
| "moduli_loop ((vals, count) # rest) m =
     moduli_loop rest (dict_set m vals (if count = 2 then 1 else 0))"

definition eliminate_symbol :: "Equation \<Rightarrow> Symbol \<Rightarrow> exn + Equation" where
  "eliminate_symbol eq symbol =
     (case count_loop (symbols eq) symbol (moduli eq) [] of
        Inl e \<Rightarrow> Inl e
      | Inr eliminated_count \<Rightarrow>
          (case list_index (symbols eq) symbol of
             Inl e \<Rightarrow> Inl e
           | Inr k \<Rightarrow>
               (case list_pop (symbols eq) k of
                  Inl e \<Rightarrow> Inl e
                | Inr symbols2 \<Rightarrow>
                    Inr \<lparr>symbols = symbols2, moduli = moduli_loop eliminated_count []\<rparr>)))"

text \<open>Sequencing of calls that may raise, for statements about a pipeline of calls.\<close>

definition bind_exn :: "exn + 'a \<Rightarrow> ('a \<Rightarrow> exn + 'b) \<Rightarrow> exn + 'b" where
  "bind_exn r f = (case r of Inl e \<Rightarrow> Inl e | Inr x \<Rightarrow> f x)"

text \<open>The notebook's premises of the syllogism \<^emph>\<open>barbara\<close> and their conjunction.\<close>

definition all_ys_are_xs :: "exn + Equation" where
  "all_ys_are_xs =
     bind_exn (parse ''y'') (\<lambda>lhs. bind_exn (parse ''xy'') (\<lambda>rhs.
       create_normalized_equation lhs rhs [''x'', ''y'', ''z'']))"

definition all_zs_are_ys :: "exn + Equation" where
  "all_zs_are_ys =
     bind_exn (parse ''z'') (\<lambda>lhs. bind_exn (parse ''yz'') (\<lambda>rhs.
       create_normalized_equation lhs rhs [''x'', ''y'', ''z'']))"

definition conclusion :: "exn + Equation" where
  "conclusion =
     bind_exn all_ys_are_xs (\<lambda>a. bind_exn all_zs_are_ys (\<lambda>b. equation_conjunction a b))"

section \<open>Notions used to state the properties\<close>

text \<open>
  The expressions of the grammar: a symbol is one lowercase letter, a constant is 0 or 1.
\<close>

fun in_grammar :: "Function \<Rightarrow> bool" where
  "in_grammar (SymbolFunction symbol) = (length symbol = 1 \<and> is_lower (hd symbol))"
| "in_grammar (MultiplicationFunction left right) = (in_grammar left \<and> in_grammar right)"
| "in_grammar (NegationFunction body) = in_grammar body"
| "in_grammar (ConstantFunction v) = (v = 0 \<or> v = 1)"

text \<open>
  \<open>rappend l r\<close> hangs \<open>r\<close> below the rightmost factor of \<open>l\<close>; \<open>rnorm e\<close> is \<open>e\<close>
  with every product nested to the right.
\<close>

fun rappend :: "Function \<Rightarrow> Function \<Rightarrow> Function" where
  "rappend (MultiplicationFunction a b) r = MultiplicationFunction a (rappend b r)"
| "rappend t r = MultiplicationFunction t r"

fun rnorm :: "Function \<Rightarrow> Function" where
  "rnorm (MultiplicationFunction l r) = rappend (rnorm l) (rnorm r)"
| "rnorm (NegationFunction b) = NegationFunction (rnorm b)"
| "rnorm e = e"

text \<open>A top-level term is an atom or a negation; \<open>right_nested t ts\<close> is the product
  of \<open>t\<close> and the terms \<open>ts\<close>, nested to the right.\<close>

fun is_term :: "Function \<Rightarrow> bool" where
  "is_term (MultiplicationFunction left right) = False"
| "is_term e = True"

fun right_nested :: "Function \<Rightarrow> Function list \<Rightarrow> Function" where
  "right_nested t [] = t"
| "right_nested t (u # us) = MultiplicationFunction t (right_nested u us)"

text \<open>The symbols that occur in an expression.\<close>

fun symbols_of :: "Function \<Rightarrow> Symbol set" where
  "symbols_of (SymbolFunction symbol) = {symbol}"
| "symbols_of (MultiplicationFunction left right) = symbols_of left \<union> symbols_of right"
| "symbols_of (NegationFunction body) = symbols_of body"
| "symbols_of (ConstantFunction v) = {}"

text \<open>A tuple of bits read as a binary number, the first bit the most significant.\<close>

definition binary_value :: "int list \<Rightarrow> int" where
  "binary_value bs = foldl (\<lambda>a b. 2 * a + b) 0 bs"

text \<open>The modulus the normalizer stores for one assignment, when both sides evaluate.\<close>

definition modulus_of :: "Function \<Rightarrow> Function \<Rightarrow> Symbol list \<Rightarrow> int list \<Rightarrow> int" where
  "modulus_of lhs rhs syms vals =
     (case (Function_call lhs (dict_of (zip syms vals)), Function_call rhs (dict_of (zip syms vals))) of
        (Inr l, Inr r) \<Rightarrow> (if l - r = 0 then 0 else 1)
      | _ \<Rightarrow> 1)"

text \<open>
  The rendering of an equation in the words of the specification: one term per forbidden
  assignment, in the order of the enumeration; in a term, the letter for the value 1 and
  \<open>(1-letter)\<close> for the value 0.
\<close>

definition term_text :: "Symbol list \<Rightarrow> int list \<Rightarrow> string" where
  "term_text syms vals =
     concat (map (\<lambda>(symbol, v). if v = 1 then symbol else ''(1-'' @ symbol @ '')'') (zip syms vals))"

definition render_spec :: "Equation \<Rightarrow> string" where
  "render_spec eq =
     (let forbidden = filter (\<lambda>vals. map_of (moduli eq) vals = Some 1)
                        (product_repeat [0, 1] (length (symbols eq)))
      in if forbidden = [] then ''0 = 0''
         else join '' + '' (map (term_text (symbols eq)) forbidden) @ '' = 0'')"

text \<open>
  The invariant of the data model: the variables are distinct, the table has one entry
  for each assignment of the variables and no other, and every modulus is 0 or 1.
\<close>

definition well_formed :: "Equation \<Rightarrow> bool" where
  "well_formed eq \<longleftrightarrow>
     distinct (symbols eq) \<and> distinct (map fst (moduli eq)) \<and>
     set (map fst (moduli eq)) = set (product_repeat [0, 1] (length (symbols eq))) \<and>
     snd ` set (moduli eq) \<subseteq> {0, 1}"

text \<open>Two equations are the same when they have the same variables and their tables
  are equal as dictionaries (in any order of the keys).\<close>

definition same_equation :: "Equation \<Rightarrow> Equation \<Rightarrow> bool" where
  "same_equation a b \<longleftrightarrow> symbols a = symbols b \<and> set (moduli a) = set (moduli b)"

text \<open>The modulus of a conjunction at one key.\<close>

definition or_moduli :: "(int list \<times> int) list \<Rightarrow> (int list \<times> int) list \<Rightarrow> int list \<Rightarrow> int" where
  "or_moduli am bm key = (if map_of am key = Some 1 \<or> map_of bm key = Some 1 then 1 else 0)"

text \<open>
  \<open>without k xs\<close> is \<open>xs\<close> with position \<open>k\<close> removed, \<open>completion k b xs\<close> is \<open>xs\<close>
  with \<open>b\<close> inserted at position \<open>k\<close>, and \<open>ones k v ms\<close> counts the entries of the table
  \<open>ms\<close> with modulus 1 whose key projects to \<open>v\<close>.
\<close>

definition without :: "nat \<Rightarrow> 'a list \<Rightarrow> 'a list" where
  "without k xs = take k xs @ drop (Suc k) xs"

definition completion :: "nat \<Rightarrow> 'a \<Rightarrow> 'a list \<Rightarrow> 'a list" where
  "completion k b xs = take k xs @ b # drop k xs"

definition ones :: "nat \<Rightarrow> int list \<Rightarrow> (int list \<times> int) list \<Rightarrow> int" where
  "ones k v ms = int (length (filter (\<lambda>(vals, modulus). without k vals = v \<and> modulus = 1) ms))"

text \<open>Balanced parentheses: the depth never drops below zero and ends at zero.\<close>

fun balanced_from :: "string \<Rightarrow> int \<Rightarrow> bool" where
  "balanced_from [] depth = (depth = 0)"
| "balanced_from (c # cs) depth =
     (if c = CHR ''('' then balanced_from cs (depth + 1)
      else if c = CHR '')'' then 0 < depth \<and> balanced_from cs (depth - 1)
      else balanced_from cs depth)"

definition balanced :: "string \<Rightarrow> bool" where
  "balanced s = balanced_from s 0"

text \<open>
  The characters of the notation, and the strings in which every opening parenthesis is
  followed by \<open>1-\<close>.
\<close>

definition notation_char :: "char \<Rightarrow> bool" where
  "notation_char c =
     (is_lower c \<or> is_01 c \<or> c = CHR ''('' \<or> c = CHR '')'' \<or> c = CHR ''-'')"

fun one_minus_follows :: "string \<Rightarrow> bool" where
  "one_minus_follows [] = True"
| "one_minus_follows (c # cs) =
     ((if c = CHR ''('' then take 2 cs = ''1-'' else True) \<and> one_minus_follows cs)"

section \<open>The parser: what it accepts and what it returns\<close>

lemma str_int_01: "str_int 0 = ''0''" "str_int 1 = ''1''"
  by (simp_all add: str_int_def str_nat.simps digit_char_def)

lemma is_lower_not_paren: "is_lower c \<Longrightarrow> c \<noteq> CHR ''('' \<and> c \<noteq> CHR '')''"
  by (auto simp: is_lower_def)

lemma is_01_not_paren: "is_01 c \<Longrightarrow> c \<noteq> CHR ''('' \<and> c \<noteq> CHR '')''"
  by (auto simp: is_01_def)

lemma matching_loop_Some:
  "matching_loop s i c = Some t \<Longrightarrow> i \<le> t \<and> t - i < length s \<and> s ! (t - i) = CHR '')''"
proof (induction s arbitrary: i c)
  case Nil
  then show ?case by simp
next
  case (Cons a s)
  show ?case
  proof (cases "a = CHR '')'' \<and> c - 1 = 0")
    case True
    with Cons.prems show ?thesis by simp
  next
    case False
    then obtain c' where "matching_loop s (Suc i) c' = Some t"
      using Cons.prems by (auto split: if_splits)
    from Cons.IH [OF this] have "Suc i \<le> t" "t - Suc i < length s" "s ! (t - Suc i) = CHR '')''"
      by simp_all
    then show ?thesis by (simp add: Suc_diff_le nth_Cons')
  qed
qed

lemma matching_parenthesis_Some:
  "matching_parenthesis s = Some t \<Longrightarrow> t < length s \<and> s ! t = CHR '')''"
  using matching_loop_Some [of s 0 0 t] by (simp add: matching_parenthesis_def)

lemma matching_loop_append:
  "matching_loop s i c = Some t \<Longrightarrow> matching_loop (s @ r) i c = Some t"
  by (induction s arbitrary: i c) (auto split: if_splits)

lemma matching_parenthesis_append:
  "matching_parenthesis s = Some t \<Longrightarrow> matching_parenthesis (s @ r) = Some t"
  by (simp add: matching_parenthesis_def matching_loop_append)

lemma take3_ge:
  assumes "take 3 s = ''(1-''" "t < length s" "s ! t = CHR '')''"
  shows "3 \<le> t"
proof (rule ccontr)
  assume "\<not> 3 \<le> t"
  then have "t < 3" by simp
  then have "take 3 s ! t = s ! t" by simp
  with assms have "''(1-'' ! t = CHR '')''" by simp
  with \<open>t < 3\<close> show False
    by (cases t; simp; cases "t - 1"; simp; cases "t - 2"; simp)
qed

lemma split_at_paren:
  assumes "take 3 s = ''(1-''" "t < length s" "s ! t = CHR '')''"
  shows "s = ''(1-'' @ drop 3 (take t s) @ '')'' @ drop (Suc t) s"
proof -
  have t3: "3 \<le> t" using assms by (rule take3_ge)
  have "s = take t s @ drop t s" by (simp only: append_take_drop_id)
  also have "drop t s = s ! t # drop (Suc t) s"
    using assms(2) by (simp add: Cons_nth_drop_Suc)
  also have "take t s = take 3 (take t s) @ drop 3 (take t s)"
    by (simp only: append_take_drop_id)
  also have "take 3 (take t s) = take 3 s" using t3 by (simp add: min_def)
  finally show ?thesis using assms by simp
qed


lemma parse_sound: "parse s = Inr e \<Longrightarrow> Function_repr e = s \<and> in_grammar e"
proof (induction s arbitrary: e rule: parse.induct)
  case (1 s)
  show ?case
  proof (cases "length s = 1")
    case True
    then obtain c where "s = [c]" by (cases s) auto
    with "1.prems" show ?thesis
      by (subst (asm) parse.simps) (auto split: if_splits simp: str_int_01 is_01_def)
  next
    case len: False
    show ?thesis
    proof (cases "s = []")
      case True
      with "1.prems" show ?thesis by (subst (asm) parse.simps) simp
    next
      case ne: False
      show ?thesis
      proof (cases "hd s = CHR ''(''")
        case paren: True
        from "1.prems" len ne paren obtain t inside where
          tk: "take 3 s = ''(1-''" and mp: "matching_parenthesis s = Some t"
          and ins: "parse (drop 3 (take t s)) = Inr inside"
          and res: "(if int t \<noteq> int (length s) - 1
                then (case parse (drop (t + 1) s) of Inl e \<Rightarrow> Inl e
                      | Inr right \<Rightarrow> Inr (MultiplicationFunction (NegationFunction inside) right))
                else Inr (NegationFunction inside)) = Inr e"
          by (subst (asm) parse.simps) (auto simp: Let_def split: if_splits sum.splits option.splits)
        from matching_parenthesis_Some [OF mp] have t: "t < length s" "s ! t = CHR '')''" by simp_all
        have s: "s = ''(1-'' @ drop 3 (take t s) @ '')'' @ drop (Suc t) s"
          using tk t by (rule split_at_paren)
        have ih1: "Function_repr inside = drop 3 (take t s) \<and> in_grammar inside"
          using "1.IH"(1) [OF len ne paren refl, of inside] tk mp ins by simp
        show ?thesis
        proof (cases "int t \<noteq> int (length s) - 1")
          case True
          with res obtain right where r: "parse (drop (t + 1) s) = Inr right"
            and e: "e = MultiplicationFunction (NegationFunction inside) right"
            by (auto split: sum.splits)
          have "Function_repr right = drop (t + 1) s \<and> in_grammar right"
            using "1.IH"(2) [OF len ne paren refl, of inside t right] tk mp ins True r by simp
          with ih1 e s show ?thesis by simp
        next
          case False
          with t have "drop (Suc t) s = []" by simp
          with False res ih1 s show ?thesis by auto
        qed
      next
        case nparen: False
        from "1.prems" len ne nparen obtain res where
          hd: "parse (take 1 s) = Inr res"
          and res: "(if int 0 \<noteq> int (length s) - 1
                then (case parse (drop (0 + 1) s) of Inl e \<Rightarrow> Inl e
                      | Inr right \<Rightarrow> Inr (MultiplicationFunction res right))
                else Inr res) = Inr e"
          by (subst (asm) parse.simps) (auto split: if_splits sum.splits)
        have ih1: "Function_repr res = take 1 s \<and> in_grammar res"
          using "1.IH"(3) [OF len ne nparen hd] .
        from len ne have c: "int 0 \<noteq> int (length s) - 1" by (cases s) auto
        with res obtain right where r: "parse (drop (0 + 1) s) = Inr right"
          and e: "e = MultiplicationFunction res right"
          by (auto split: sum.splits)
        have "Function_repr right = drop (0 + 1) s \<and> in_grammar right"
          using "1.IH"(4) [OF len ne nparen hd c r] .
        with ih1 e show ?thesis by simp
      qed
    qed
  qed
qed


lemma parse_Nil: "parse [] = Inl IndexError"
  by (subst parse.simps) simp

lemma parse_single:
  "parse [c] =
     (if is_lower c then Inr (SymbolFunction [c])
      else if is_01 c then Inr (ConstantFunction (if c = CHR ''0'' then 0 else 1))
      else Inl ValueError)"
  by (subst parse.simps) simp

lemma parse_paren_unfold:
  assumes "hd s = CHR ''(''" "length s \<noteq> 1" "s \<noteq> []" "take 3 s = ''(1-''"
    and "matching_parenthesis s = Some t" "parse (drop 3 (take t s)) = Inr inside"
  shows "parse s =
     (if int t \<noteq> int (length s) - 1 then
        (case parse (drop (t + 1) s) of
           Inl e \<Rightarrow> Inl e
         | Inr right \<Rightarrow> Inr (MultiplicationFunction (NegationFunction inside) right))
      else Inr (NegationFunction inside))"
  using assms by (subst parse.simps) simp

lemma parse_atom_unfold:
  assumes "c \<noteq> CHR ''(''" "r \<noteq> []"
  shows "parse (c # r) =
     (case parse [c] of
        Inl e \<Rightarrow> Inl e
      | Inr res \<Rightarrow>
          (case parse r of
             Inl e \<Rightarrow> Inl e
           | Inr right \<Rightarrow> Inr (MultiplicationFunction res right)))"
  using assms by (subst parse.simps) (simp split: sum.splits)

lemma parse_paren_inv:
  assumes "parse s = Inr e" "length s \<noteq> 1" "hd s = CHR ''(''"
  shows "\<exists>t inside. take 3 s = ''(1-'' \<and> matching_parenthesis s = Some t \<and>
           parse (drop 3 (take t s)) = Inr inside \<and>
           (if int t \<noteq> int (length s) - 1
            then \<exists>right. parse (drop (t + 1) s) = Inr right \<and>
                   e = MultiplicationFunction (NegationFunction inside) right
            else e = NegationFunction inside)"
  using assms
  by (subst (asm) parse.simps) (auto simp: Let_def split: if_splits sum.splits option.splits)

lemma parse_atom_inv:
  assumes "parse (c # r) = Inr e" "r \<noteq> []" "c \<noteq> CHR ''(''"
  shows "\<exists>res right. parse [c] = Inr res \<and> parse r = Inr right \<and>
           e = MultiplicationFunction res right"
  using assms(1) by (simp add: parse_atom_unfold [OF assms(3,2)] split: sum.splits)

lemma parse_append:
  "parse s1 = Inr e1 \<Longrightarrow> parse s2 = Inr e2 \<Longrightarrow> parse (s1 @ s2) = Inr (rappend e1 e2)"
proof (induction "length s1" arbitrary: s1 e1 rule: less_induct)
  case less
  from less.prems(2) have s2: "s2 \<noteq> []" by (auto simp: parse_Nil)
  from less.prems(1) have s1: "s1 \<noteq> []" by (auto simp: parse_Nil)
  show ?case
  proof (cases "length s1 = 1")
    case True
    then obtain c where c: "s1 = [c]" by (cases s1) auto
    with less.prems(1) have atom: "is_lower c \<or> is_01 c"
      and e1: "rappend e1 e2 = MultiplicationFunction e1 e2"
      by (auto simp: parse_single split: if_splits)
    then have "c \<noteq> CHR ''(''" using is_lower_not_paren is_01_not_paren by blast
    from parse_atom_unfold [OF this s2] less.prems c e1 show ?thesis by simp
  next
    case len: False
    show ?thesis
    proof (cases "hd s1 = CHR ''(''")
      case paren: True
      from parse_paren_inv [OF less.prems(1) len paren] obtain t inside where
        tk: "take 3 s1 = ''(1-''" and mp: "matching_parenthesis s1 = Some t"
        and ins: "parse (drop 3 (take t s1)) = Inr inside"
        and res: "if int t \<noteq> int (length s1) - 1
            then \<exists>right. parse (drop (t + 1) s1) = Inr right \<and>
                   e1 = MultiplicationFunction (NegationFunction inside) right
            else e1 = NegationFunction inside"
        by blast
      from matching_parenthesis_Some [OF mp] have t: "t < length s1" "s1 ! t = CHR '')''"
        by simp_all
      have t3: "3 \<le> t" using tk t by (rule take3_ge)
      have a1: "hd (s1 @ s2) = CHR ''(''" using paren s1 by simp
      have a2: "length (s1 @ s2) \<noteq> 1" using s1 s2 by (cases s1; cases s2) auto
      have a3: "s1 @ s2 \<noteq> []" using s1 by simp
      have a4: "take 3 (s1 @ s2) = ''(1-''" using tk t t3 by simp
      have a5: "matching_parenthesis (s1 @ s2) = Some t"
        using mp by (rule matching_parenthesis_append)
      have a6: "parse (drop 3 (take t (s1 @ s2))) = Inr inside" using ins t by simp
      have a7: "int t \<noteq> int (length (s1 @ s2)) - 1" using t s2 by (cases s2) auto
      have a8: "drop (t + 1) (s1 @ s2) = drop (t + 1) s1 @ s2" using t by simp
      note unf = parse_paren_unfold [OF a1 a2 a3 a4 a5 a6]
      show ?thesis
      proof (cases "int t \<noteq> int (length s1) - 1")
        case True
        with res obtain right where r: "parse (drop (t + 1) s1) = Inr right"
          and e1: "e1 = MultiplicationFunction (NegationFunction inside) right"
          by auto
        have "length (drop (t + 1) s1) < length s1" using s1 by simp
        from less.hyps [OF this r less.prems(2)]
        have "parse (drop (t + 1) s1 @ s2) = Inr (rappend right e2)" .
        with unf a7 a8 e1 show ?thesis by simp
      next
        case False
        with res have e1: "e1 = NegationFunction inside" by simp
        from False t have "drop (t + 1) s1 = []" by simp
        with unf a7 a8 e1 less.prems(2) show ?thesis by simp
      qed
    next
      case nparen: False
      from s1 len obtain c r where cr: "s1 = c # r" "r \<noteq> []" by (cases s1) auto
      with nparen have c: "c \<noteq> CHR ''(''" by simp
      from parse_atom_inv [OF less.prems(1) [unfolded cr(1)] cr(2) c] obtain res right where
        hd: "parse [c] = Inr res" and r: "parse r = Inr right"
        and e1: "e1 = MultiplicationFunction res right"
        by blast
      have "length r < length s1" using cr by simp
      from less.hyps [OF this r less.prems(2)]
      have ih: "parse (r @ s2) = Inr (rappend right e2)" .
      have "r @ s2 \<noteq> []" using cr by simp
      from parse_atom_unfold [OF c this] hd ih e1 cr show ?thesis by simp
    qed
  qed
qed

lemma matching_loop_repr:
  "in_grammar e \<Longrightarrow> 1 \<le> c \<Longrightarrow>
     matching_loop (Function_repr e @ r) i c = matching_loop r (i + length (Function_repr e)) c"
proof (induction e arbitrary: r i c)
  case (SymbolFunction x)
  then obtain ch where "x = [ch]" "is_lower ch" by (cases x) auto
  then show ?case using is_lower_not_paren [of ch] by simp
next
  case (MultiplicationFunction e1 e2)
  then show ?case by (simp add: add.assoc)
next
  case (NegationFunction e)
  then show ?case by (simp add: add.assoc)
next
  case (ConstantFunction x)
  then show ?case by (auto simp: str_int_01)
qed

lemma matching_parenthesis_repr:
  assumes "in_grammar e"
  shows "matching_parenthesis (''(1-'' @ Function_repr e @ '')'' @ r) = Some (3 + length (Function_repr e))"
  using matching_loop_repr [OF assms, of 1 "'')'' @ r" "Suc (Suc (Suc 0))"]
  by (simp add: matching_parenthesis_def numeral_3_eq_3)

lemma parse_repr: "in_grammar e \<Longrightarrow> parse (Function_repr e) = Inr (rnorm e)"
proof (induction e)
  case (SymbolFunction x)
  then obtain ch where "x = [ch]" "is_lower ch" by (cases x) auto
  then show ?case by (simp add: parse_single)
next
  case (MultiplicationFunction e1 e2)
  then show ?case by (simp add: parse_append)
next
  case (NegationFunction e)
  let ?s = "''(1-'' @ Function_repr e @ '')''"
  have mp: "matching_parenthesis ?s = Some (3 + length (Function_repr e))"
    using matching_parenthesis_repr [OF NegationFunction.prems [simplified], of "[]"] by simp
  have ins: "parse (drop 3 (take (3 + length (Function_repr e)) ?s)) = Inr (rnorm e)"
    using NegationFunction by (simp add: numeral_3_eq_3)
  have "parse ?s = Inr (NegationFunction (rnorm e))"
    using parse_paren_unfold [OF _ _ _ _ mp ins] by simp
  then show ?case by simp
next
  case (ConstantFunction x)
  then show ?case by (auto simp: str_int_01 parse_single is_lower_def is_01_def)
qed


section \<open>The syllogism barbara\<close>

text \<open>
  C1. With the premises \<open>y = xy\<close> and \<open>z = yz\<close> normalized over \<open>x, y, z\<close>, eliminating
  \<open>y\<close> from their conjunction gives an equation that renders as \<open>(1-x)z = 0\<close>.
\<close>

theorem barbara_eliminated:
  "bind_exn conclusion (\<lambda>c. bind_exn (eliminate_symbol c ''y'') (\<lambda>e. Inr (Equation_repr e)))
     = Inr ''(1-x)z = 0''"
  by code_simp

section \<open>Rendering and parsing expressions\<close>

text \<open>
  C5. Round trip: for every expression \<open>e\<close> of the grammar, parsing the text of \<open>e\<close>
  succeeds, and the text of the parsed expression is the text of \<open>e\<close> again.
\<close>

theorem repr_parse_roundtrip:
  assumes "in_grammar e"
  shows "bind_exn (parse (Function_repr e)) (\<lambda>e'. Inr (Function_repr e')) = Inr (Function_repr e)"
proof -
  from assms have p: "parse (Function_repr e) = Inr (rnorm e)" by (rule parse_repr)
  from parse_sound [OF p] have "Function_repr (rnorm e) = Function_repr e" by simp
  with p show ?thesis by (simp add: bind_exn_def)
qed

theorem repr_parse_roundtrip_witness:
  "in_grammar (MultiplicationFunction
      (MultiplicationFunction (SymbolFunction ''x'') (NegationFunction (SymbolFunction ''y'')))
      (ConstantFunction 1))
   \<and> bind_exn (parse ''x(1-y)1'') (\<lambda>e'. Inr (Function_repr e')) = Inr ''x(1-y)1''"
  using repr_parse_roundtrip [of "MultiplicationFunction
      (MultiplicationFunction (SymbolFunction ''x'') (NegationFunction (SymbolFunction ''y'')))
      (ConstantFunction 1)"]
  by (simp add: is_lower_def str_int_01)

text \<open>
  C7, as the code has it. The parser combines the first top-level term with the parse of
  the whole remainder, so juxtaposition nests to the right: when the strings
  \<open>s, ss\<close> parse to the top-level terms \<open>e, es\<close> (atoms or negations), their
  concatenation parses to \<open>e\<close> times the right-nested product of \<open>es\<close>.
\<close>

theorem juxtaposition_right_nested:
  "list_all2 (\<lambda>s e. parse s = Inr e \<and> is_term e) (s # ss) (e # es) \<Longrightarrow>
     parse (concat (s # ss)) = Inr (right_nested e es)"
proof (induction ss arbitrary: s e es)
  case Nil
  then show ?case by simp
next
  case (Cons s' ss)
  then obtain e' es' where es: "es = e' # es'" by (cases es) auto
  from Cons.prems es have hd: "parse s = Inr e" "is_term e"
    and tl: "list_all2 (\<lambda>s e. parse s = Inr e \<and> is_term e) (s' # ss) (e' # es')"
    by simp_all
  from Cons.IH [OF tl] have "parse (concat (s' # ss)) = Inr (right_nested e' es')" .
  from parse_append [OF hd(1) this] hd(2) es show ?case by (cases e) simp_all
qed

theorem juxtaposition_right_nested_witness:
  "parse ''x(1-y)z'' =
     Inr (MultiplicationFunction (SymbolFunction ''x'')
           (MultiplicationFunction (NegationFunction (SymbolFunction ''y'')) (SymbolFunction ''z'')))"
proof -
  have y: "parse ''(1-y)'' = Inr (NegationFunction (SymbolFunction ''y''))" by code_simp
  have xz: "parse ''x'' = Inr (SymbolFunction ''x'')" "parse ''z'' = Inr (SymbolFunction ''z'')"
    by (simp_all add: parse_single is_lower_def)
  from juxtaposition_right_nested [of "''x''" "[''(1-y)'', ''z'']" "SymbolFunction ''x''"
      "[NegationFunction (SymbolFunction ''y''), SymbolFunction ''z'']"] y xz
  show ?thesis by simp
qed

text \<open>The claim's own example: \<open>xyz\<close> does not parse to the left-nested product.\<close>

theorem juxtaposition_left_nested_counterexample:
  "parse ''xyz'' \<noteq>
     Inr (MultiplicationFunction
           (MultiplicationFunction (SymbolFunction ''x'') (SymbolFunction ''y''))
           (SymbolFunction ''z''))"
  by code_simp

section \<open>Dictionaries, the enumeration of assignments, evaluation\<close>

subsection \<open>Dictionaries\<close>

lemma map_of_dict_set: "map_of (dict_set d k v) = (map_of d)(k \<mapsto> v)"
  by (induction d) (auto simp: fun_eq_iff)

lemma keys_dict_set:
  "map fst (dict_set d k v) = (if k \<in> fst ` set d then map fst d else map fst d @ [k])"
  by (induction d) force+

lemma dict_set_new: "k \<notin> fst ` set d \<Longrightarrow> dict_set d k v = d @ [(k, v)]"
  by (induction d) auto

lemma fold_upd: "fold (\<lambda>(k, v) m. m(k \<mapsto> v)) kvs m = m ++ map_of (rev kvs)"
proof (induction kvs arbitrary: m)
  case Nil
  then show ?case by simp
next
  case (Cons kv kvs)
  obtain k v where kv: "kv = (k, v)" by (cases kv)
  let ?f = "\<lambda>(k, v) m. m(k \<mapsto> v)"
  have "fold ?f (kv # kvs) m = fold ?f kvs (m(k \<mapsto> v))"
    unfolding kv by (simp only: fold_simps comp_apply prod.case)
  also have "\<dots> = m(k \<mapsto> v) ++ map_of (rev kvs)"
    by (rule Cons.IH)
  also have "\<dots> = m ++ ([k \<mapsto> v] ++ map_of (rev kvs))"
    by (rule ext) (simp add: map_add_def split: option.splits)
  also have "[k \<mapsto> v] ++ map_of (rev kvs) = map_of (rev (kv # kvs))"
    unfolding kv by simp
  finally show ?case .
qed

lemma dict_of_map_of: "dict_of kvs = map_of (rev kvs)"
  by (simp add: dict_of_def fold_upd)

lemma dict_of_zip_in:
  assumes "dict_of (zip syms vals) x = Some v"
  shows "v \<in> set vals"
proof -
  from assms have "(x, v) \<in> set (rev (zip syms vals))"
    by (simp only: dict_of_map_of) (rule map_of_SomeD)
  then show ?thesis by (auto dest: set_zip_rightD)
qed

lemma dict_of_zip_bound:
  assumes "x \<in> set syms" "length syms \<le> length vals"
  shows "\<exists>v. dict_of (zip syms vals) x = Some v"
proof -
  from assms have "x \<in> fst ` set (rev (zip syms vals))"
    by (simp add: map_fst_zip_take flip: set_map)
  then have "map_of (rev (zip syms vals)) x \<noteq> None"
    by (simp add: map_of_eq_None_iff)
  then show ?thesis by (auto simp: dict_of_map_of)
qed

subsection \<open>The enumeration of the assignments\<close>

lemma product_step_01: "product_step [0, 1] result = concat (map (\<lambda>x. [x @ [0], x @ [1]]) result)"
  by (simp add: product_step_def)

lemma in_product_repeat:
  "vals \<in> set (product_repeat [0, 1 :: int] n) \<longleftrightarrow> length vals = n \<and> set vals \<subseteq> {0, 1}"
proof (induction n arbitrary: vals)
  case 0
  then show ?case by auto
next
  case (Suc n)
  show ?case
  proof
    assume "vals \<in> set (product_repeat [0, 1] (Suc n))"
    then obtain x where "x \<in> set (product_repeat [0, 1] n)" "vals = x @ [0] \<or> vals = x @ [1]"
      by (auto simp: product_step_01)
    with Suc.IH [of x] show "length vals = Suc n \<and> set vals \<subseteq> {0, 1}" by auto
  next
    assume a: "length vals = Suc n \<and> set vals \<subseteq> {0, 1}"
    then have "vals \<noteq> []" by auto
    then obtain x b where xb: "vals = x @ [b]" by (cases vals rule: rev_cases) auto
    with a Suc.IH [of x] have "x \<in> set (product_repeat [0, 1] n)" "b = 0 \<or> b = 1" by auto
    with xb show "vals \<in> set (product_repeat [0, 1] (Suc n))"
      by (auto simp: product_step_01)
  qed
qed

lemma length_product_repeat: "length (product_repeat [0, 1 :: int] n) = 2 ^ n"
proof (induction n)
  case 0
  then show ?case by simp
next
  case (Suc n)
  have "length (concat (map (\<lambda>x. [x @ [0 :: int], x @ [1]]) xs)) = 2 * length xs" for xs :: "int list list"
    by (induction xs) auto
  with Suc show ?case by (simp add: product_step_01)
qed

lemma binary_value_snoc: "binary_value (x @ [b]) = 2 * binary_value x + b"
  by (simp add: binary_value_def)

lemma pairs_upt:
  "concat (map (\<lambda>k. [f (2 * k), f (2 * k + 1)]) [0..<m]) = map f [0..<2 * m]"
  by (induction m) auto

lemma binary_value_product_repeat:
  "map binary_value (product_repeat [0, 1] n) = map int [0..<2 ^ n]"
proof (induction n)
  case 0
  then show ?case by (simp add: binary_value_def)
next
  case (Suc n)
  have "map binary_value (product_repeat [0, 1] (Suc n)) =
      concat (map (\<lambda>x. [2 * binary_value x, 2 * binary_value x + 1]) (product_repeat [0, 1] n))"
    by (simp add: product_step_01 map_concat comp_def binary_value_snoc)
  also have "\<dots> = concat (map (\<lambda>k. [2 * k, 2 * k + 1]) (map binary_value (product_repeat [0, 1] n)))"
    by (simp add: comp_def)
  also have "\<dots> = concat (map (\<lambda>k. [int (2 * k), int (2 * k + 1)]) [0..<2 ^ n])"
    by (simp add: Suc.IH comp_def add.commute)
  also have "\<dots> = map int [0..<2 * 2 ^ n]"
    by (rule pairs_upt)
  finally show ?case by simp
qed

lemma distinct_product_repeat: "distinct (product_repeat [0, 1 :: int] n)"
proof -
  have "distinct (map int [0..<2 ^ n])" by (simp add: distinct_map)
  then have "distinct (map binary_value (product_repeat [0, 1] n))"
    by (simp only: binary_value_product_repeat)
  then show ?thesis by (simp add: distinct_map)
qed

subsection \<open>Evaluation\<close>

lemma call_agree:
  "(\<forall>x\<in>symbols_of e. v1 x = v2 x) \<Longrightarrow> Function_call e v1 = Function_call e v2"
  by (induction e) (auto split: sum.splits)

lemma call_bound:
  "(\<forall>x\<in>symbols_of e. vals x \<noteq> None) \<Longrightarrow> \<exists>v. Function_call e vals = Inr v"
  by (induction e) auto

lemma call_error: "Function_call e vals = Inl err \<Longrightarrow> err = KeyError"
  by (induction e arbitrary: err) (auto split: sum.splits option.splits)

lemma call_unbound:
  "x \<in> symbols_of e \<Longrightarrow> vals x = None \<Longrightarrow> Function_call e vals = Inl KeyError"
  by (induction e) (auto split: sum.splits dest: call_error)

subsection \<open>Normalization\<close>

lemma normalize_loop_result:
  assumes "\<forall>vals\<in>set vs. \<exists>l r. Function_call lhs (dict_of (zip syms vals)) = Inr l \<and>
             Function_call rhs (dict_of (zip syms vals)) = Inr r"
    and "distinct vs" "set vs \<inter> fst ` set m = {}"
  shows "normalize_loop lhs rhs syms vs m = Inr (m @ map (\<lambda>vals. (vals, modulus_of lhs rhs syms vals)) vs)"
  using assms
proof (induction vs arbitrary: m)
  case Nil
  then show ?case by simp
next
  case (Cons vals vs)
  from Cons.prems(1) obtain l r where
    lr: "Function_call lhs (dict_of (zip syms vals)) = Inr l"
        "Function_call rhs (dict_of (zip syms vals)) = Inr r"
    by auto
  let ?v = "if l - r = 0 then 0 else 1 :: int"
  from Cons.prems(3) have new: "dict_set m vals ?v = m @ [(vals, ?v)]"
    by (intro dict_set_new) auto
  have "set vs \<inter> fst ` set (m @ [(vals, ?v)]) = {}"
    using Cons.prems(2,3) by auto
  with Cons.IH [of "m @ [(vals, ?v)]"] Cons.prems(1,2)
  have "normalize_loop lhs rhs syms vs (m @ [(vals, ?v)]) =
      Inr ((m @ [(vals, ?v)]) @ map (\<lambda>vals. (vals, modulus_of lhs rhs syms vals)) vs)"
    by simp
  moreover have "modulus_of lhs rhs syms vals = ?v"
    using lr by (simp add: modulus_of_def)
  ultimately show ?case using lr new by (simp add: Let_def)
qed

lemma calls_succeed:
  assumes "symbols_of e \<subseteq> set syms" "vals \<in> set (product_repeat [0, 1] (length syms))"
  shows "\<exists>v. Function_call e (dict_of (zip syms vals)) = Inr v"
proof -
  from assms(2) have "length syms \<le> length vals" by (simp add: in_product_repeat)
  with assms(1) have "\<forall>x\<in>symbols_of e. dict_of (zip syms vals) x \<noteq> None"
    using dict_of_zip_bound [of _ syms vals] by fastforce
  then show ?thesis by (rule call_bound)
qed

lemma create_normalized_equation_result:
  assumes "symbols_of lhs \<union> symbols_of rhs \<subseteq> set syms"
  shows "create_normalized_equation lhs rhs syms =
     Inr \<lparr>symbols = syms,
          moduli = map (\<lambda>vals. (vals, modulus_of lhs rhs syms vals))
                     (product_repeat [0, 1] (length syms))\<rparr>"
proof -
  have "\<forall>vals\<in>set (product_repeat [0, 1] (length syms)).
      \<exists>l r. Function_call lhs (dict_of (zip syms vals)) = Inr l \<and>
            Function_call rhs (dict_of (zip syms vals)) = Inr r"
    using assms calls_succeed [of lhs syms] calls_succeed [of rhs syms] by simp
  from normalize_loop_result [OF this distinct_product_repeat, of "[]"]
  show ?thesis by (simp add: create_normalized_equation_def)
qed

section \<open>Normalization and rendering of equations\<close>

lemma map_of_tabulate: "a \<in> set xs \<Longrightarrow> map_of (map (\<lambda>k. (k, f k)) xs) a = Some (f a)"
  by (induction xs) auto

lemma call_boolean:
  assumes "in_grammar e" "\<forall>x\<in>symbols_of e. vals x = Some 0 \<or> vals x = Some 1"
  shows "Function_call e vals = Inr 0 \<or> Function_call e vals = Inr 1"
  using assms by (induction e) auto

lemma zip_binding_boolean:
  assumes "x \<in> set syms" "vals \<in> set (product_repeat [0, 1 :: int] (length syms))"
  shows "dict_of (zip syms vals) x = Some 0 \<or> dict_of (zip syms vals) x = Some 1"
proof -
  from assms(2) have len: "length syms \<le> length vals" and bits: "set vals \<subseteq> {0, 1}"
    by (simp_all add: in_product_repeat)
  from dict_of_zip_bound [OF assms(1) len] obtain v where v: "dict_of (zip syms vals) x = Some v"
    by blast
  from dict_of_zip_in [OF v] bits have "v = 0 \<or> v = 1" by auto
  with v show ?thesis by simp
qed

lemma call_returns_boolean:
  assumes "in_grammar e" "\<forall>x v. vals x = Some v \<longrightarrow> v = 0 \<or> v = 1"
    and "Function_call e vals = Inr v"
  shows "v = 0 \<or> v = 1"
  using assms by (induction e arbitrary: v) (auto split: sum.splits option.splits)

lemma dict_of_zip_unbound: "x \<notin> set syms \<Longrightarrow> dict_of (zip syms vals) x = None"
  by (auto simp: dict_of_map_of map_of_eq_None_iff dest: set_zip_leftD)

lemma product_repeat_nonempty: "product_repeat [0, 1 :: int] n \<noteq> []"
  using length_product_repeat [of n] by auto

lemma normalize_loop_unbound:
  assumes "\<not> symbols_of lhs \<union> symbols_of rhs \<subseteq> set syms"
  shows "normalize_loop lhs rhs syms (vals # rest) m = Inl KeyError"
proof (cases "symbols_of lhs \<subseteq> set syms")
  case False
  then obtain x where "x \<in> symbols_of lhs" "x \<notin> set syms" by blast
  then have "Function_call lhs (dict_of (zip syms vals)) = Inl KeyError"
    by (intro call_unbound [of x]) (simp_all add: dict_of_zip_unbound)
  then show ?thesis by (simp add: Let_def)
next
  case True
  with assms obtain x where "x \<in> symbols_of rhs" "x \<notin> set syms" by blast
  then have r: "Function_call rhs (dict_of (zip syms vals)) = Inl KeyError"
    by (intro call_unbound [of x]) (simp_all add: dict_of_zip_unbound)
  show ?thesis
  proof (cases "Function_call lhs (dict_of (zip syms vals))")
    case (Inl err)
    with call_error [OF Inl] show ?thesis by (simp add: Let_def)
  next
    case (Inr l)
    with r show ?thesis by (simp add: Let_def)
  qed
qed

lemma create_normalized_equation_unbound:
  assumes "\<not> symbols_of lhs \<union> symbols_of rhs \<subseteq> set syms"
  shows "create_normalized_equation lhs rhs syms = Inl KeyError"
proof -
  obtain vals rest where "product_repeat [0, 1 :: int] (length syms) = vals # rest"
    using product_repeat_nonempty [of "length syms"] by (cases "product_repeat [0, 1 :: int] (length syms)") auto
  with normalize_loop_unbound [OF assms, of vals rest "[]"] show ?thesis
    by (simp add: create_normalized_equation_def)
qed

lemma normalize_table_bound:
  assumes "symbols_of lhs \<union> symbols_of rhs \<subseteq> set syms"
  shows "\<exists>eq. create_normalized_equation lhs rhs syms = Inr eq \<and> symbols eq = syms
     \<and> length (moduli eq) = 2 ^ length syms
     \<and> distinct (map fst (moduli eq))
     \<and> set (map fst (moduli eq)) = {vals. length vals = length syms \<and> set vals \<subseteq> {0, 1}}
     \<and> map (binary_value \<circ> fst) (moduli eq) = map int [0..<2 ^ length syms]
     \<and> (\<forall>(vals, modulus)\<in>set (moduli eq).
          \<exists>l r. Function_call lhs (dict_of (zip syms vals)) = Inr l
              \<and> Function_call rhs (dict_of (zip syms vals)) = Inr r
              \<and> modulus = (if l - r = 0 then 0 else 1))"
proof -
  let ?P = "product_repeat [0, 1 :: int] (length syms)"
  let ?m = "map (\<lambda>vals. (vals, modulus_of lhs rhs syms vals)) ?P"
  have keys: "map fst ?m = ?P" by (simp add: comp_def)
  have res: "create_normalized_equation lhs rhs syms = Inr \<lparr>symbols = syms, moduli = ?m\<rparr>"
    using assms by (rule create_normalized_equation_result)
  have len: "length ?m = 2 ^ length syms" by (simp add: length_product_repeat)
  have dist: "distinct (map fst ?m)" by (simp only: keys distinct_product_repeat)
  have all: "set (map fst ?m) = {vals. length vals = length syms \<and> set vals \<subseteq> {0, 1}}"
    unfolding keys using in_product_repeat by blast
  have ord: "map (binary_value \<circ> fst) ?m = map int [0..<2 ^ length syms]"
    using binary_value_product_repeat [of "length syms"] by (simp add: comp_def)
  have val: "\<exists>l r. Function_call lhs (dict_of (zip syms vals)) = Inr l
              \<and> Function_call rhs (dict_of (zip syms vals)) = Inr r
              \<and> modulus = (if l - r = 0 then 0 else 1)"
    if "(vals, modulus) \<in> set ?m" for vals modulus
  proof -
    from that have v: "vals \<in> set ?P" and m: "modulus = modulus_of lhs rhs syms vals" by auto
    from assms calls_succeed [of lhs syms vals] calls_succeed [of rhs syms vals] v
    obtain l r where "Function_call lhs (dict_of (zip syms vals)) = Inr l"
      "Function_call rhs (dict_of (zip syms vals)) = Inr r" by auto
    with m show ?thesis by (simp add: modulus_of_def)
  qed
  from res len dist all ord val show ?thesis by (intro exI [of _ "\<lparr>symbols = syms, moduli = ?m\<rparr>"]) auto
qed

text \<open>
  C2, as the code has it. When every symbol of \<open>lhs\<close> and \<open>rhs\<close> is among the variables,
  \<^verbatim>\<open>create_normalized_equation\<close> returns an equation over these variables whose table
  has exactly \<open>2 ^ n\<close> entries, one for each tuple of \<open>n\<close> bits and none twice, in
  ascending order of the tuples read as binary numbers with the first variable the most
  significant; the modulus of an assignment is 0 when the two sides evaluate to the same
  number and 1 otherwise. When a symbol of \<open>lhs\<close> or \<open>rhs\<close> is not among the variables,
  the first evaluation that meets it raises KeyError and no table is built.
\<close>

theorem normalize_table:
  "(symbols_of lhs \<union> symbols_of rhs \<subseteq> set syms \<longrightarrow>
     (\<exists>eq. create_normalized_equation lhs rhs syms = Inr eq \<and> symbols eq = syms
       \<and> length (moduli eq) = 2 ^ length syms
       \<and> distinct (map fst (moduli eq))
       \<and> set (map fst (moduli eq)) = {vals. length vals = length syms \<and> set vals \<subseteq> {0, 1}}
       \<and> map (binary_value \<circ> fst) (moduli eq) = map int [0..<2 ^ length syms]
       \<and> (\<forall>(vals, modulus)\<in>set (moduli eq).
            \<exists>l r. Function_call lhs (dict_of (zip syms vals)) = Inr l
                \<and> Function_call rhs (dict_of (zip syms vals)) = Inr r
                \<and> modulus = (if l - r = 0 then 0 else 1))))
   \<and> (\<not> symbols_of lhs \<union> symbols_of rhs \<subseteq> set syms \<longrightarrow>
        create_normalized_equation lhs rhs syms = Inl KeyError)"
  using normalize_table_bound [of lhs rhs syms] create_normalized_equation_unbound [of lhs rhs syms]
  by blast

text \<open>
  C9. An expression returned by \<^verbatim>\<open>parse\<close> evaluates to 0 or 1 under every assignment
  that binds each of its symbols to 0 or 1; in particular under every assignment the
  normalizer builds, when the symbols of the expression are among the variables; and
  whatever the variables are, an evaluation under such an assignment that returns a
  value returns 0 or 1.
\<close>

theorem evaluations_stay_boolean:
  assumes "parse s = Inr e"
  shows "((\<forall>x\<in>symbols_of e. vals x = Some 0 \<or> vals x = Some 1) \<longrightarrow>
            Function_call e vals = Inr 0 \<or> Function_call e vals = Inr 1)
       \<and> (symbols_of e \<subseteq> set syms \<and> assignment \<in> set (product_repeat [0, 1] (length syms)) \<longrightarrow>
            Function_call e (dict_of (zip syms assignment)) = Inr 0
          \<or> Function_call e (dict_of (zip syms assignment)) = Inr 1)
       \<and> (assignment \<in> set (product_repeat [0, 1] (length syms)) \<and>
            Function_call e (dict_of (zip syms assignment)) = Inr v \<longrightarrow> v = 0 \<or> v = 1)"
proof -
  from parse_sound [OF assms] have g: "in_grammar e" by simp
  show ?thesis
  proof (intro conjI impI)
    assume "\<forall>x\<in>symbols_of e. vals x = Some 0 \<or> vals x = Some 1"
    with g show "Function_call e vals = Inr 0 \<or> Function_call e vals = Inr 1"
      by (rule call_boolean)
  next
    assume a: "symbols_of e \<subseteq> set syms \<and> assignment \<in> set (product_repeat [0, 1] (length syms))"
    then have "\<forall>x\<in>symbols_of e. dict_of (zip syms assignment) x = Some 0
                 \<or> dict_of (zip syms assignment) x = Some 1"
      using zip_binding_boolean [of _ syms assignment] by blast
    with g show "Function_call e (dict_of (zip syms assignment)) = Inr 0
          \<or> Function_call e (dict_of (zip syms assignment)) = Inr 1"
      by (rule call_boolean)
  next
    assume a: "assignment \<in> set (product_repeat [0, 1] (length syms)) \<and>
            Function_call e (dict_of (zip syms assignment)) = Inr v"
    then have "set assignment \<subseteq> {0, 1}" by (simp add: in_product_repeat)
    then have "\<forall>x v. dict_of (zip syms assignment) x = Some v \<longrightarrow> v = 0 \<or> v = 1"
      using dict_of_zip_in [of syms assignment] by blast
    from call_returns_boolean [OF g this] a show "v = 0 \<or> v = 1" by blast
  qed
qed

text \<open>
  C10. Two assignments that bind every symbol of \<open>e\<close> and agree on these symbols give
  \<open>e\<close> the same value. Hence normalization over a list of variables that contains the
  symbols of both sides succeeds, and two assignments of the enumeration that agree on
  the occurring symbols get the same evaluations and the same modulus.
\<close>

theorem evaluation_ignores_extra_bindings:
  "((\<forall>x\<in>symbols_of e. v1 x = v2 x \<and> v1 x \<noteq> None) \<longrightarrow>
      (\<exists>v. Function_call e v1 = Inr v \<and> Function_call e v2 = Inr v))
   \<and> (symbols_of lhs \<union> symbols_of rhs \<subseteq> set syms \<longrightarrow>
      (\<exists>eq. create_normalized_equation lhs rhs syms = Inr eq \<and>
         (\<forall>a1\<in>set (product_repeat [0, 1] (length syms)).
          \<forall>a2\<in>set (product_repeat [0, 1] (length syms)).
            (\<forall>x\<in>symbols_of lhs \<union> symbols_of rhs.
               dict_of (zip syms a1) x = dict_of (zip syms a2) x) \<longrightarrow>
            Function_call lhs (dict_of (zip syms a1)) = Function_call lhs (dict_of (zip syms a2)) \<and>
            Function_call rhs (dict_of (zip syms a1)) = Function_call rhs (dict_of (zip syms a2)) \<and>
            map_of (moduli eq) a1 = map_of (moduli eq) a2)))"
proof (intro conjI impI)
  assume a: "\<forall>x\<in>symbols_of e. v1 x = v2 x \<and> v1 x \<noteq> None"
  then have "\<forall>x\<in>symbols_of e. v1 x \<noteq> None" by blast
  from call_bound [OF this] obtain v where "Function_call e v1 = Inr v" by blast
  moreover from a have "\<forall>x\<in>symbols_of e. v1 x = v2 x" by blast
  then have "Function_call e v1 = Function_call e v2" by (rule call_agree)
  ultimately show "\<exists>v. Function_call e v1 = Inr v \<and> Function_call e v2 = Inr v" by auto
next
  assume sub: "symbols_of lhs \<union> symbols_of rhs \<subseteq> set syms"
  let ?P = "product_repeat [0, 1 :: int] (length syms)"
  let ?m = "map (\<lambda>vals. (vals, modulus_of lhs rhs syms vals)) ?P"
  have res: "create_normalized_equation lhs rhs syms = Inr \<lparr>symbols = syms, moduli = ?m\<rparr>"
    using sub by (rule create_normalized_equation_result)
  have dep: "Function_call lhs (dict_of (zip syms a1)) = Function_call lhs (dict_of (zip syms a2)) \<and>
            Function_call rhs (dict_of (zip syms a1)) = Function_call rhs (dict_of (zip syms a2)) \<and>
            map_of ?m a1 = map_of ?m a2"
    if a1: "a1 \<in> set ?P" and a2: "a2 \<in> set ?P"
      and agree: "\<forall>x\<in>symbols_of lhs \<union> symbols_of rhs.
               dict_of (zip syms a1) x = dict_of (zip syms a2) x"
    for a1 a2
  proof -
    from agree have l: "Function_call lhs (dict_of (zip syms a1)) = Function_call lhs (dict_of (zip syms a2))"
      by (intro call_agree) blast
    from agree have r: "Function_call rhs (dict_of (zip syms a1)) = Function_call rhs (dict_of (zip syms a2))"
      by (intro call_agree) blast
    from l r have "modulus_of lhs rhs syms a1 = modulus_of lhs rhs syms a2"
      by (simp add: modulus_of_def)
    with a1 a2 l r show ?thesis by (simp add: map_of_tabulate)
  qed
  show "\<exists>eq. create_normalized_equation lhs rhs syms = Inr eq \<and>
         (\<forall>a1\<in>set ?P. \<forall>a2\<in>set ?P.
            (\<forall>x\<in>symbols_of lhs \<union> symbols_of rhs.
               dict_of (zip syms a1) x = dict_of (zip syms a2) x) \<longrightarrow>
            Function_call lhs (dict_of (zip syms a1)) = Function_call lhs (dict_of (zip syms a2)) \<and>
            Function_call rhs (dict_of (zip syms a1)) = Function_call rhs (dict_of (zip syms a2)) \<and>
            map_of (moduli eq) a1 = map_of (moduli eq) a2)"
  proof (rule exI [of _ "\<lparr>symbols = syms, moduli = ?m\<rparr>"], rule conjI [OF res], intro ballI impI)
    fix a1 a2
    assume h: "a1 \<in> set ?P" "a2 \<in> set ?P"
      "\<forall>x\<in>symbols_of lhs \<union> symbols_of rhs. dict_of (zip syms a1) x = dict_of (zip syms a2) x"
    from dep [OF h]
    show "Function_call lhs (dict_of (zip syms a1)) = Function_call lhs (dict_of (zip syms a2)) \<and>
          Function_call rhs (dict_of (zip syms a1)) = Function_call rhs (dict_of (zip syms a2)) \<and>
          map_of (moduli \<lparr>symbols = syms, moduli = ?m\<rparr>) a1 =
          map_of (moduli \<lparr>symbols = syms, moduli = ?m\<rparr>) a2"
      by simp
  qed
qed

subsection \<open>Rendering\<close>

lemma term_loop_concat:
  "term_loop kvs acc =
     acc @ concat (map (\<lambda>(symbol, v). if v = 1 then symbol else ''(1-'' @ symbol @ '')'') kvs)"
  by (induction kvs arbitrary: acc) auto

lemma terms_loop_filter:
  "terms_loop syms ms acc =
     acc @ map (term_text syms) (map fst (filter (\<lambda>(vals, modulus). modulus \<noteq> 0) ms))"
  by (induction ms arbitrary: acc) (auto simp: term_loop_concat term_text_def)

lemma forbidden_keys:
  assumes "distinct (map fst ms)" "snd ` set ms \<subseteq> {0, 1 :: int}"
  shows "map fst (filter (\<lambda>(vals, modulus). modulus \<noteq> 0) ms) =
     filter (\<lambda>vals. map_of ms vals = Some 1) (map fst ms)"
  using assms
proof (induction ms)
  case Nil
  then show ?case by simp
next
  case (Cons p ms)
  obtain k v where p: "p = (k, v)" by (cases p)
  with Cons.prems have k: "k \<notin> fst ` set ms" and v: "v = 0 \<or> v = 1" by auto
  have "filter (\<lambda>vals. map_of (p # ms) vals = Some 1) (map fst ms) =
      filter (\<lambda>vals. map_of ms vals = Some 1) (map fst ms)"
    using k p by (intro filter_cong) auto
  with Cons p v show ?case by auto
qed


theorem normalize_table_witness:
  "symbols_of (SymbolFunction ''x'')
     \<union> symbols_of (MultiplicationFunction (SymbolFunction ''x'') (SymbolFunction ''y''))
     \<subseteq> set [''x'', ''y'']
   \<and> create_normalized_equation (SymbolFunction ''x'')
       (MultiplicationFunction (SymbolFunction ''x'') (SymbolFunction ''y'')) [''x'', ''y'']
     = Inr \<lparr>symbols = [''x'', ''y''],
            moduli = [([0, 0], 0), ([0, 1], 0), ([1, 0], 1), ([1, 1], 0)]\<rparr>
   \<and> (\<exists>eq. create_normalized_equation (SymbolFunction ''x'')
       (MultiplicationFunction (SymbolFunction ''x'') (SymbolFunction ''y'')) [''x'', ''y''] = Inr eq
       \<and> length (moduli eq) = 4
       \<and> map (binary_value \<circ> fst) (moduli eq) = [0, 1, 2, 3])
   \<and> create_normalized_equation (SymbolFunction ''x'') (SymbolFunction ''x'') [''y''] = Inl KeyError"
proof -
  let ?x = "SymbolFunction ''x''"
  let ?xy = "MultiplicationFunction (SymbolFunction ''x'') (SymbolFunction ''y'')"
  have h: "symbols_of ?x \<union> symbols_of ?xy \<subseteq> set [''x'', ''y'']" by simp
  have v: "create_normalized_equation ?x ?xy [''x'', ''y'']
     = Inr \<lparr>symbols = [''x'', ''y''],
            moduli = [([0, 0], 0), ([0, 1], 0), ([1, 0], 1), ([1, 1], 0)]\<rparr>"
    by code_simp
  have u: "[0..<4] = [0, 1, 2, 3]" by code_simp
  from normalize_table [THEN conjunct1, THEN mp, OF h] obtain eq where
    "create_normalized_equation ?x ?xy [''x'', ''y''] = Inr eq"
    "length (moduli eq) = 2 ^ length [''x'', ''y'']"
    "map (binary_value \<circ> fst) (moduli eq) = map int [0..<2 ^ length [''x'', ''y'']]"
    by blast
  with u have "\<exists>eq. create_normalized_equation ?x ?xy [''x'', ''y''] = Inr eq
       \<and> length (moduli eq) = 4
       \<and> map (binary_value \<circ> fst) (moduli eq) = [0, 1, 2, 3]"
    by (intro exI [of _ eq]) simp
  moreover have "\<not> symbols_of ?x \<union> symbols_of ?x \<subseteq> set [''y'']" by simp
  from normalize_table [THEN conjunct2, THEN mp, OF this]
  have "create_normalized_equation ?x ?x [''y''] = Inl KeyError" .
  ultimately show ?thesis using h v by blast
qed

text \<open>Without that condition there is no table: a symbol that is not among the variables
  makes the first evaluation raise KeyError.\<close>

theorem normalize_unbound_counterexample:
  "create_normalized_equation (SymbolFunction ''y'') (SymbolFunction ''y'') [''x''] = Inl KeyError"
  by code_simp

theorem evaluations_stay_boolean_witness:
  "parse ''x(1-y)'' =
     Inr (MultiplicationFunction (SymbolFunction ''x'') (NegationFunction (SymbolFunction ''y'')))
   \<and> Function_call
        (MultiplicationFunction (SymbolFunction ''x'') (NegationFunction (SymbolFunction ''y'')))
        [''x'' \<mapsto> 1, ''y'' \<mapsto> 0] = Inr 1
   \<and> (Function_call
        (MultiplicationFunction (SymbolFunction ''x'') (NegationFunction (SymbolFunction ''y'')))
        (dict_of (zip [''x'', ''y'', ''z''] [1, 1, 0])) = Inr 0
      \<or> Function_call
        (MultiplicationFunction (SymbolFunction ''x'') (NegationFunction (SymbolFunction ''y'')))
        (dict_of (zip [''x'', ''y'', ''z''] [1, 1, 0])) = Inr 1)"
proof -
  let ?e = "MultiplicationFunction (SymbolFunction ''x'') (NegationFunction (SymbolFunction ''y''))"
  have p: "parse ''x(1-y)'' = Inr ?e" by code_simp
  have b: "\<forall>x\<in>symbols_of ?e. [''x'' \<mapsto> 1, ''y'' \<mapsto> 0 :: int] x = Some 0
             \<or> [''x'' \<mapsto> 1, ''y'' \<mapsto> 0 :: int] x = Some 1"
    by simp
  have c: "Function_call ?e [''x'' \<mapsto> 1, ''y'' \<mapsto> 0] = Inr 1" by simp
  have s: "symbols_of ?e \<subseteq> set [''x'', ''y'', ''z'']" by simp
  have a: "[1, 1, 0] \<in> set (product_repeat [0, 1 :: int] (length [''x'', ''y'', ''z'']))"
    by (simp add: product_step_def)
  from evaluations_stay_boolean [OF p, of "[''x'' \<mapsto> 1, ''y'' \<mapsto> 0]" "[''x'', ''y'', ''z'']" "[1, 1, 0]"]
    b s a p c
  show ?thesis by blast
qed

theorem evaluation_ignores_extra_bindings_witness:
  "(\<exists>v. Function_call (MultiplicationFunction (SymbolFunction ''x'') (SymbolFunction ''y''))
           [''x'' \<mapsto> 1, ''y'' \<mapsto> 0] = Inr v
       \<and> Function_call (MultiplicationFunction (SymbolFunction ''x'') (SymbolFunction ''y''))
           [''x'' \<mapsto> 1, ''y'' \<mapsto> 0, ''z'' \<mapsto> 1] = Inr v)
   \<and> (\<exists>eq. create_normalized_equation (SymbolFunction ''y'')
             (MultiplicationFunction (SymbolFunction ''x'') (SymbolFunction ''y''))
             [''x'', ''y'', ''z''] = Inr eq
        \<and> map_of (moduli eq) [0, 1, 0] = map_of (moduli eq) [0, 1, 1])"
proof -
  let ?xy = "MultiplicationFunction (SymbolFunction ''x'') (SymbolFunction ''y'')"
  let ?y = "SymbolFunction ''y''"
  let ?syms = "[''x'', ''y'', ''z'']"
  note t = evaluation_ignores_extra_bindings [of ?xy "[''x'' \<mapsto> 1, ''y'' \<mapsto> 0]"
      "[''x'' \<mapsto> 1, ''y'' \<mapsto> 0, ''z'' \<mapsto> 1]" ?y ?xy ?syms]
  have "\<forall>x\<in>symbols_of ?xy. [''x'' \<mapsto> 1, ''y'' \<mapsto> 0 :: int] x = [''x'' \<mapsto> 1, ''y'' \<mapsto> 0, ''z'' \<mapsto> 1] x
      \<and> [''x'' \<mapsto> 1, ''y'' \<mapsto> 0 :: int] x \<noteq> None"
    by simp
  with t have first: "\<exists>v. Function_call ?xy [''x'' \<mapsto> 1, ''y'' \<mapsto> 0] = Inr v
       \<and> Function_call ?xy [''x'' \<mapsto> 1, ''y'' \<mapsto> 0, ''z'' \<mapsto> 1] = Inr v"
    by blast
  have s: "symbols_of ?y \<union> symbols_of ?xy \<subseteq> set ?syms" by simp
  have a1: "[0, 1, 0] \<in> set (product_repeat [0, 1 :: int] (length ?syms))"
    and a2: "[0, 1, 1] \<in> set (product_repeat [0, 1 :: int] (length ?syms))"
    by (simp_all add: product_step_def)
  have ag: "\<forall>x\<in>symbols_of ?y \<union> symbols_of ?xy.
      dict_of (zip ?syms [0, 1, 0 :: int]) x = dict_of (zip ?syms [0, 1, 1]) x"
    by (simp add: dict_of_def)
  from t s obtain eq where eq: "create_normalized_equation ?y ?xy ?syms = Inr eq"
    and dep: "\<forall>a1\<in>set (product_repeat [0, 1] (length ?syms)).
          \<forall>a2\<in>set (product_repeat [0, 1] (length ?syms)).
            (\<forall>x\<in>symbols_of ?y \<union> symbols_of ?xy.
               dict_of (zip ?syms a1) x = dict_of (zip ?syms a2) x) \<longrightarrow>
            Function_call ?y (dict_of (zip ?syms a1)) = Function_call ?y (dict_of (zip ?syms a2)) \<and>
            Function_call ?xy (dict_of (zip ?syms a1)) = Function_call ?xy (dict_of (zip ?syms a2)) \<and>
            map_of (moduli eq) a1 = map_of (moduli eq) a2"
    by blast
  from dep a1 a2 ag have "map_of (moduli eq) [0, 1, 0] = map_of (moduli eq) [0, 1, 1]"
    by blast
  with eq first show ?thesis by blast
qed

text \<open>
  C8. For an equation whose table lists the assignments in the order of the enumeration,
  with moduli 0 and 1, \<^verbatim>\<open>Equation.__repr__\<close> returns the rendering of the
  specification: the terms of the forbidden assignments joined by \<open>" + "\<close> and followed
  by \<open>" = 0"\<close>, or \<open>"0 = 0"\<close> when no assignment is forbidden.
\<close>

theorem equation_rendering:
  assumes "map fst (moduli eq) = product_repeat [0, 1] (length (symbols eq))"
    and "snd ` set (moduli eq) \<subseteq> {0, 1}"
  shows "Equation_repr eq = render_spec eq"
proof -
  let ?P = "product_repeat [0, 1 :: int] (length (symbols eq))"
  have "distinct (map fst (moduli eq))"
    by (simp only: assms(1) distinct_product_repeat)
  from forbidden_keys [OF this assms(2)]
  have "terms_loop (symbols eq) (moduli eq) [] =
      map (term_text (symbols eq)) (filter (\<lambda>vals. map_of (moduli eq) vals = Some 1) ?P)"
    by (simp add: terms_loop_filter assms(1))
  then show ?thesis
    by (simp add: Equation_repr_def render_spec_def Let_def)
qed

theorem equation_rendering_witness:
  "Equation_repr \<lparr>symbols = [''x'', ''y''],
       moduli = [([0, 0], 0), ([0, 1], 0), ([1, 0], 1), ([1, 1], 1)]\<rparr> = ''x(1-y) + xy = 0''
   \<and> render_spec \<lparr>symbols = [''x'', ''y''],
       moduli = [([0, 0], 0), ([0, 1], 0), ([1, 0], 1), ([1, 1], 1)]\<rparr> = ''x(1-y) + xy = 0''"
proof -
  let ?eq = "\<lparr>symbols = [''x'', ''y''],
       moduli = [([0, 0], 0), ([0, 1], 0), ([1, 0], 1), ([1, 1], 1 :: int)]\<rparr>"
  have k: "map fst (moduli ?eq) = product_repeat [0, 1] (length (symbols ?eq))"
    by code_simp
  have v: "snd ` set (moduli ?eq) \<subseteq> {0, 1}" by simp
  have r: "render_spec ?eq = ''x(1-y) + xy = 0''" by code_simp
  from equation_rendering [OF k v] r show ?thesis by simp
qed

section \<open>Conjunction\<close>

lemma dict_get_Some: "map_of d k = Some v \<Longrightarrow> dict_get d k = Inr v"
  by (simp add: dict_get_def)

lemma conjunction_loop_result:
  assumes "distinct ks" "set ks \<subseteq> fst ` set am" "set ks \<subseteq> fst ` set bm"
    and "set ks \<inter> fst ` set m = {}"
  shows "conjunction_loop am bm ks m = Inr (m @ map (\<lambda>key. (key, or_moduli am bm key)) ks)"
  using assms
proof (induction ks arbitrary: m)
  case Nil
  then show ?case by simp
next
  case (Cons key ks)
  from Cons.prems(2,3) have "map_of am key \<noteq> None" "map_of bm key \<noteq> None"
    by (simp_all add: map_of_eq_None_iff)
  then obtain av bv where
    av: "map_of am key = Some av" and bv: "map_of bm key = Some bv"
    by blast
  let ?v = "or_moduli am bm key"
  from Cons.prems(4) have new: "dict_set m key v = m @ [(key, v)]" for v
    by (intro dict_set_new) auto
  have "set ks \<inter> fst ` set (m @ [(key, ?v)]) = {}"
    using Cons.prems(1,4) by auto
  with Cons.IH [of "m @ [(key, ?v)]"] Cons.prems(1,2,3)
  have ih: "conjunction_loop am bm ks (m @ [(key, ?v)]) =
      Inr ((m @ [(key, ?v)]) @ map (\<lambda>key. (key, or_moduli am bm key)) ks)"
    by simp
  show ?case
  proof (cases "av = 1")
    case True
    with av have "?v = 1" by (simp add: or_moduli_def)
    with ih av True new show ?thesis by (simp add: dict_get_Some)
  next
    case False
    with av bv have "?v = (if bv = 1 then 1 else 0)" by (simp add: or_moduli_def)
    with ih av bv False new show ?thesis by (simp add: dict_get_Some)
  qed
qed

lemma equation_conjunction_result:
  assumes "symbols a = symbols b" "distinct (map fst (moduli a))"
    and "set (map fst (moduli a)) \<subseteq> set (map fst (moduli b))"
  shows "equation_conjunction a b =
     Inr \<lparr>symbols = symbols a,
          moduli = map (\<lambda>key. (key, or_moduli (moduli a) (moduli b) key)) (map fst (moduli a))\<rparr>"
proof -
  from assms(2,3)
  have "conjunction_loop (moduli a) (moduli b) (map fst (moduli a)) [] =
      Inr ([] @ map (\<lambda>key. (key, or_moduli (moduli a) (moduli b) key)) (map fst (moduli a)))"
    by (intro conjunction_loop_result) auto
  with assms(1) show ?thesis by (simp add: equation_conjunction_def)
qed

lemma well_formed_conjunction:
  assumes "well_formed a"
  shows "well_formed \<lparr>symbols = symbols a,
          moduli = map (\<lambda>key. (key, or_moduli am bm key)) (map fst (moduli a))\<rparr>"
  using assms by (auto simp: well_formed_def comp_def or_moduli_def split: if_splits)

lemma or_moduli_self:
  assumes "distinct (map fst ms)" "snd ` set ms \<subseteq> {0, 1}"
  shows "map (\<lambda>key. (key, or_moduli ms ms key)) (map fst ms) = ms"
proof -
  have "(fst p, or_moduli ms ms (fst p)) = p" if "p \<in> set ms" for p
  proof -
    obtain k v where p: "p = (k, v)" by (cases p)
    with that assms(1) have "map_of ms k = Some v" by simp
    moreover from that p assms(2) have "v = 0 \<or> v = 1" by auto
    ultimately show ?thesis using p by (auto simp: or_moduli_def)
  qed
  then show ?thesis by (simp add: map_idI comp_def)
qed

lemma map_of_or_moduli:
  "key \<in> set ks \<Longrightarrow>
     map_of (map (\<lambda>key. (key, or_moduli am bm key)) ks) key = Some (or_moduli am bm key)"
  by (induction ks) auto

lemma or_moduli_assoc:
  assumes "key \<in> set ka" "key \<in> set kb"
  shows "or_moduli (map (\<lambda>key. (key, or_moduli am bm key)) ka) cm key =
     or_moduli am (map (\<lambda>key. (key, or_moduli bm cm key)) kb) key"
  using assms by (simp add: or_moduli_def [of "map f ks" for f ks] or_moduli_def [of am "map f ks" for f ks] map_of_or_moduli)
     (auto simp: or_moduli_def)


lemma or_moduli_commute: "or_moduli am bm = or_moduli bm am"
  by (auto simp: or_moduli_def fun_eq_iff)

lemma well_formed_keys:
  assumes "well_formed a" "well_formed b" "symbols a = symbols b"
  shows "set (map fst (moduli a)) = set (map fst (moduli b))"
  using assms by (simp add: well_formed_def)

text \<open>
  C4. For equations \<open>a\<close>, \<open>b\<close>, \<open>c\<close> that satisfy the invariant over the same variables,
  \<^verbatim>\<open>equation_conjunction\<close> succeeds and returns an equation that satisfies the
  invariant, whose modulus at every assignment is the OR of the two moduli. It is
  commutative (the results are the same equation, and equal as values when the two tables
  list their keys in the same order), idempotent and associative, and an assignment that
  either input forbids is forbidden in the result.
\<close>

theorem conjunction_laws:
  assumes "well_formed a" "well_formed b" "well_formed c"
    and "symbols a = symbols b" "symbols b = symbols c"
  shows "\<exists>ab ba bc abc.
      equation_conjunction a b = Inr ab \<and> equation_conjunction b a = Inr ba \<and>
      equation_conjunction b c = Inr bc \<and>
      well_formed ab \<and> symbols ab = symbols a \<and>
      (\<forall>key\<in>set (product_repeat [0, 1] (length (symbols a))).
         map_of (moduli ab) key =
           Some (if map_of (moduli a) key = Some 1 \<or> map_of (moduli b) key = Some 1 then 1 else 0)) \<and>
      same_equation ab ba \<and> (map fst (moduli a) = map fst (moduli b) \<longrightarrow> ab = ba) \<and>
      equation_conjunction a a = Inr a \<and>
      equation_conjunction ab c = Inr abc \<and> equation_conjunction a bc = Inr abc \<and>
      (\<forall>key. map_of (moduli a) key = Some 1 \<or> map_of (moduli b) key = Some 1 \<longrightarrow>
         map_of (moduli ab) key = Some 1)"
proof -
  let ?ka = "map fst (moduli a)" and ?kb = "map fst (moduli b)" and ?kc = "map fst (moduli c)"
  let ?tab = "\<lambda>am bm ks. map (\<lambda>key. (key, or_moduli am bm key)) ks"
  define ab where "ab = \<lparr>symbols = symbols a, moduli = ?tab (moduli a) (moduli b) ?ka\<rparr>"
  define ba where "ba = \<lparr>symbols = symbols b, moduli = ?tab (moduli b) (moduli a) ?kb\<rparr>"
  define bc where "bc = \<lparr>symbols = symbols b, moduli = ?tab (moduli b) (moduli c) ?kb\<rparr>"
  define abc where "abc = \<lparr>symbols = symbols a, moduli = ?tab (moduli ab) (moduli c) ?ka\<rparr>"
  have da: "distinct ?ka" and db: "distinct ?kb"
    using assms(1,2) by (simp_all add: well_formed_def)
  have kab: "set ?ka = set ?kb" using assms(1,2,4) by (rule well_formed_keys)
  have kbc: "set ?kb = set ?kc" using assms(2,3,5) by (rule well_formed_keys)
  have ka: "set ?ka = set (product_repeat [0, 1] (length (symbols a)))"
    using assms(1) by (simp add: well_formed_def)
  have keys_ab: "map fst (moduli ab) = ?ka" and keys_bc: "map fst (moduli bc) = ?kb"
    by (simp_all add: ab_def bc_def comp_def)
  have r_ab: "equation_conjunction a b = Inr ab"
    unfolding ab_def using assms(4) da kab by (intro equation_conjunction_result) simp_all
  have r_ba: "equation_conjunction b a = Inr ba"
    unfolding ba_def using assms(4) db kab by (intro equation_conjunction_result) simp_all
  have r_bc: "equation_conjunction b c = Inr bc"
    unfolding bc_def using assms(5) db kbc by (intro equation_conjunction_result) simp_all
  have wf_ab: "well_formed ab"
    unfolding ab_def using assms(1) by (rule well_formed_conjunction)
  have sym_ab: "symbols ab = symbols a" by (simp add: ab_def)
  have lookup: "map_of (moduli ab) key = Some (or_moduli (moduli a) (moduli b) key)"
    if "key \<in> set ?ka" for key
    using that by (simp add: ab_def map_of_or_moduli del: map_map)
  have pointwise: "\<forall>key\<in>set (product_repeat [0, 1] (length (symbols a))).
         map_of (moduli ab) key =
           Some (if map_of (moduli a) key = Some 1 \<or> map_of (moduli b) key = Some 1 then 1 else 0)"
    using lookup ka by (simp add: or_moduli_def)
  have "set (moduli ab) = (\<lambda>key. (key, or_moduli (moduli a) (moduli b) key)) ` set ?ka"
    by (simp add: ab_def image_image)
  moreover have "set (moduli ba) = (\<lambda>key. (key, or_moduli (moduli a) (moduli b) key)) ` set ?kb"
    by (simp add: ba_def or_moduli_commute [of "moduli b"] image_image)
  ultimately have same: "same_equation ab ba"
    using kab assms(4) by (simp add: same_equation_def ab_def ba_def)
  have eq: "map fst (moduli a) = map fst (moduli b) \<longrightarrow> ab = ba"
    using assms(4) by (simp add: ab_def ba_def or_moduli_commute [of "moduli b"])
  have "equation_conjunction a a =
      Inr \<lparr>symbols = symbols a, moduli = ?tab (moduli a) (moduli a) ?ka\<rparr>"
    using da by (intro equation_conjunction_result) simp_all
  moreover have "?tab (moduli a) (moduli a) ?ka = moduli a"
    using assms(1) by (intro or_moduli_self) (simp_all add: well_formed_def)
  ultimately have idem: "equation_conjunction a a = Inr a" by simp
  have "equation_conjunction ab c =
      Inr \<lparr>symbols = symbols ab, moduli = ?tab (moduli ab) (moduli c) (map fst (moduli ab))\<rparr>"
    using assms(4,5) da kab kbc by (intro equation_conjunction_result) (simp_all add: keys_ab sym_ab)
  then have left: "equation_conjunction ab c = Inr abc"
    by (simp add: abc_def keys_ab sym_ab)
  have "equation_conjunction a bc =
      Inr \<lparr>symbols = symbols a, moduli = ?tab (moduli a) (moduli bc) ?ka\<rparr>"
    using assms(4) da kab by (intro equation_conjunction_result) (simp_all add: keys_bc, simp add: bc_def)
  moreover have "?tab (moduli a) (moduli bc) ?ka = ?tab (moduli ab) (moduli c) ?ka"
  proof (rule map_cong [OF refl])
    fix key assume k: "key \<in> set ?ka"
    with kab have "key \<in> set ?kb" by simp
    with k have "or_moduli (?tab (moduli a) (moduli b) ?ka) (moduli c) key =
        or_moduli (moduli a) (?tab (moduli b) (moduli c) ?kb) key"
      by (rule or_moduli_assoc)
    then show "(key, or_moduli (moduli a) (moduli bc) key) = (key, or_moduli (moduli ab) (moduli c) key)"
      by (simp add: ab_def bc_def del: map_map)
  qed
  ultimately have right: "equation_conjunction a bc = Inr abc"
    by (simp add: abc_def)
  have mono: "\<forall>key. map_of (moduli a) key = Some 1 \<or> map_of (moduli b) key = Some 1 \<longrightarrow>
         map_of (moduli ab) key = Some 1"
  proof (intro allI impI)
    fix key assume h: "map_of (moduli a) key = Some 1 \<or> map_of (moduli b) key = Some 1"
    then have "key \<in> fst ` set (moduli a) \<or> key \<in> fst ` set (moduli b)"
      by (auto dest: map_of_SomeD intro: rev_image_eqI)
    with kab have "key \<in> set ?ka" by auto
    from lookup [OF this] h show "map_of (moduli ab) key = Some 1"
      by (simp add: or_moduli_def)
  qed
  from r_ab r_ba r_bc wf_ab sym_ab pointwise same eq idem left right mono
  show ?thesis by blast
qed

section \<open>Elimination\<close>

lemma list_index_Inr: "list_index xs x = Inr k \<Longrightarrow> k < length xs \<and> xs ! k = x"
  by (induction xs arbitrary: k) (auto split: if_splits sum.splits)

lemma list_index_absent: "x \<notin> set xs \<Longrightarrow> list_index xs x = Inl ValueError"
  by (induction xs) auto

lemma list_index_distinct:
  "distinct xs \<Longrightarrow> k < length xs \<Longrightarrow> list_index xs (xs ! k) = Inr k"
proof (induction xs arbitrary: k)
  case Nil
  then show ?case by simp
next
  case (Cons a xs)
  then show ?case by (cases k) auto
qed

lemma list_pop_without: "k < length xs \<Longrightarrow> list_pop xs k = Inr (without k xs)"
  by (simp add: list_pop_def without_def)

lemma distinct_dict_set: "distinct (map fst d) \<Longrightarrow> distinct (map fst (dict_set d k v))"
  by (simp add: keys_dict_set)

lemma keys_set_dict_set: "fst ` set (dict_set d k v) = insert k (fst ` set d)"
proof -
  have "set (map fst (dict_set d k v)) = insert k (set (map fst d))"
    by (simp only: keys_dict_set) auto
  then show ?thesis by simp
qed

lemma without_completion: "k \<le> length v \<Longrightarrow> without k (completion k b v) = v"
  by (simp add: without_def completion_def min_def)

lemma completion_without: "k < length vals \<Longrightarrow> completion k (vals ! k) (without k vals) = vals"
  by (simp add: without_def completion_def min_def Cons_nth_drop_Suc)

lemma completion_inj: "k \<le> length v \<Longrightarrow> completion k b v = completion k b' v \<Longrightarrow> b = b'"
  by (simp add: completion_def)

lemma without_in_product:
  assumes "vals \<in> set (product_repeat [0, 1 :: int] n)" "k < n"
  shows "without k vals \<in> set (product_repeat [0, 1] (n - 1))"
proof -
  from assms have "length vals = n" "set vals \<subseteq> {0, 1}" by (simp_all add: in_product_repeat)
  moreover have "set (without k vals) \<subseteq> set vals"
    by (auto simp: without_def dest: in_set_takeD in_set_dropD)
  ultimately show ?thesis using assms(2) by (auto simp: in_product_repeat without_def)
qed

lemma completion_in_product:
  assumes "v \<in> set (product_repeat [0, 1 :: int] (n - 1))" "k < n" "b = 0 \<or> b = 1"
  shows "completion k b v \<in> set (product_repeat [0, 1] n)"
proof -
  from assms have "length v = n - 1" "set v \<subseteq> {0, 1}" by (simp_all add: in_product_repeat)
  moreover have "set (completion k b v) \<subseteq> insert b (set v)"
    by (auto simp: completion_def dest: in_set_takeD in_set_dropD)
  ultimately show ?thesis using assms(2,3) by (auto simp: in_product_repeat completion_def)
qed

lemma without_image_product:
  assumes "k < n"
  shows "without k ` set (product_repeat [0, 1 :: int] n) = set (product_repeat [0, 1] (n - 1))"
proof (intro equalityI subsetI)
  fix v assume "v \<in> without k ` set (product_repeat [0, 1 :: int] n)"
  then obtain x where x: "x \<in> set (product_repeat [0, 1 :: int] n)" "v = without k x" by blast
  from without_in_product [OF x(1) assms] x(2) show "v \<in> set (product_repeat [0, 1] (n - 1))"
    by simp
next
  fix v :: "int list" assume v: "v \<in> set (product_repeat [0, 1] (n - 1))"
  then have "k \<le> length v" using assms by (simp add: in_product_repeat)
  then have "v = without k (completion k 0 v)" by (simp add: without_completion)
  moreover from v assms have "completion k 0 v \<in> set (product_repeat [0, 1] n)"
    by (intro completion_in_product) simp_all
  ultimately show "v \<in> without k ` set (product_repeat [0, 1 :: int] n)" by blast
qed


lemma count_loop_result:
  assumes "list_index syms symbol = Inr k" "\<forall>(vals, modulus)\<in>set ms. k < length vals"
    and "distinct (map fst ec)"
  shows "\<exists>ec'. count_loop syms symbol ms ec = Inr ec' \<and> distinct (map fst ec') \<and>
     set (map fst ec') = set (map fst ec) \<union> without k ` fst ` set ms \<and>
     (\<forall>v\<in>set (map fst ec').
        map_of ec' v = Some ((case map_of ec v of None \<Rightarrow> 0 | Some c \<Rightarrow> c) + ones k v ms))"
  using assms(2,3)
proof (induction ms arbitrary: ec)
  case Nil
  then show ?case by (auto simp: ones_def map_of_eq_None_iff [symmetric] simp del: map_of_eq_None_iff)
next
  case (Cons p ms)
  obtain vals modulus where p: "p = (vals, modulus)" by (cases p)
  with Cons.prems(1) have k: "k < length vals" by simp
  define values2 where "values2 = without k vals"
  define ec1 where
    "ec1 = (if \<not> dict_contains ec values2 then dict_set ec values2 0 else ec)"
  define ec2 where
    "ec2 = (if modulus = 1 then dict_set ec1 values2 (the (map_of ec1 values2) + 1) else ec1)"
  have d1: "distinct (map fst ec1)"
    using Cons.prems(2) by (simp add: ec1_def distinct_dict_set)
  have k1: "set (map fst ec1) = insert values2 (set (map fst ec))"
    by (auto simp: ec1_def keys_set_dict_set dict_contains_def map_of_eq_None_iff)
  have v1: "(case map_of ec1 v of None \<Rightarrow> 0 | Some c \<Rightarrow> c) =
      (case map_of ec v of None \<Rightarrow> 0 | Some c \<Rightarrow> c)" for v
    by (auto simp: ec1_def map_of_dict_set dict_contains_def)
  from k1 obtain c where c: "map_of ec1 values2 = Some c"
    by (cases "map_of ec1 values2") (auto simp: map_of_eq_None_iff)
  have d2: "distinct (map fst ec2)"
    using d1 by (simp add: ec2_def distinct_dict_set)
  have k2: "set (map fst ec2) = insert values2 (set (map fst ec))"
    using k1 by (auto simp: ec2_def keys_set_dict_set)
  have v2: "(case map_of ec2 v of None \<Rightarrow> 0 | Some c \<Rightarrow> c) =
      (case map_of ec v of None \<Rightarrow> 0 | Some c \<Rightarrow> c)
        + (if v = values2 \<and> modulus = 1 then 1 else 0)" for v
    using v1 [of v] c by (auto simp: ec2_def map_of_dict_set)
  have step: "count_loop syms symbol (p # ms) ec = count_loop syms symbol ms ec2"
    using assms(1) k c
    by (simp add: p list_pop_without values2_def [symmetric] ec1_def [symmetric] Let_def
        dict_get_Some ec2_def)
  from Cons.prems(1) have "\<forall>(vals, modulus)\<in>set ms. k < length vals" by simp
  from Cons.IH [OF this d2] obtain ec' where
    r: "count_loop syms symbol ms ec2 = Inr ec'" and d: "distinct (map fst ec')"
    and ks: "set (map fst ec') = set (map fst ec2) \<union> without k ` fst ` set ms"
    and vs: "\<forall>v\<in>set (map fst ec').
        map_of ec' v = Some ((case map_of ec2 v of None \<Rightarrow> 0 | Some c \<Rightarrow> c) + ones k v ms)"
    by blast
  have o: "ones k v (p # ms) = (if v = values2 \<and> modulus = 1 then 1 else 0) + ones k v ms" for v
    by (auto simp: ones_def p values2_def)
  have ks': "set (map fst ec') = set (map fst ec) \<union> without k ` fst ` set (p # ms)"
    using ks k2 by (auto simp: p values2_def)
  have vs': "\<forall>v\<in>set (map fst ec').
      map_of ec' v = Some ((case map_of ec v of None \<Rightarrow> 0 | Some c \<Rightarrow> c) + ones k v (p # ms))"
    using vs by (simp add: v2 o)
  from step r have "count_loop syms symbol (p # ms) ec = Inr ec'" by simp
  with d ks' vs' show ?case by blast
qed

lemma count_loop_empty:
  assumes "list_index syms symbol = Inr k" "\<forall>(vals, modulus)\<in>set ms. k < length vals"
  shows "\<exists>ec. count_loop syms symbol ms [] = Inr ec \<and> distinct (map fst ec) \<and>
     set (map fst ec) = without k ` fst ` set ms \<and>
     (\<forall>v\<in>set (map fst ec). map_of ec v = Some (ones k v ms))"
  using count_loop_result [OF assms, of "[]"] by simp

lemma moduli_loop_result:
  assumes "distinct (map fst ec)" "set (map fst ec) \<inter> fst ` set m = {}"
  shows "moduli_loop ec m = m @ map (\<lambda>(vals, count). (vals, if count = 2 then 1 else 0)) ec"
  using assms
proof (induction ec arbitrary: m)
  case Nil
  then show ?case by simp
next
  case (Cons p ec)
  obtain vals count where p: "p = (vals, count)" by (cases p)
  let ?v = "if count = 2 then 1 else 0 :: int"
  from Cons.prems(2) p have "dict_set m vals ?v = m @ [(vals, ?v)]"
    by (intro dict_set_new) auto
  moreover have "set (map fst ec) \<inter> fst ` set (m @ [(vals, ?v)]) = {}"
    using Cons.prems p by auto
  moreover have "distinct (map fst ec)" using Cons.prems(1) by simp
  ultimately show ?case using Cons.IH [of "m @ [(vals, ?v)]"] p by simp
qed


lemma distinct_without: "distinct xs \<Longrightarrow> distinct (without k xs)"
proof -
  assume d: "distinct xs"
  then have "distinct (take k xs @ drop k xs)" by simp
  then have "set (take k xs) \<inter> set (drop k xs) = {}" by (simp only: distinct_append)
  moreover have "set (drop (Suc k) xs) \<subseteq> set (drop k xs)"
    by (rule set_drop_subset_set_drop) simp
  ultimately have "set (take k xs) \<inter> set (drop (Suc k) xs) = {}" by blast
  with d show ?thesis by (simp add: without_def)
qed

lemma ones_completions:
  assumes "distinct (map fst ms)" "set (map fst ms) = set (product_repeat [0, 1] n)"
    and "k < n" "v \<in> set (product_repeat [0, 1] (n - 1))"
  shows "ones k v ms =
     (if map_of ms (completion k 0 v) = Some 1 then 1 else 0)
   + (if map_of ms (completion k 1 v) = Some 1 then 1 else 0)"
proof -
  let ?c0 = "completion k 0 v" and ?c1 = "completion k 1 v"
  let ?A = "{(?c0, 1 :: int)} \<inter> set ms" and ?B = "{(?c1, 1 :: int)} \<inter> set ms"
  from assms(3,4) have kv: "k \<le> length v" by (simp add: in_product_repeat)
  have dm: "distinct ms" using assms(1) by (simp add: distinct_map)
  have "{x. (case x of (vals, modulus) \<Rightarrow> without k vals = v \<and> modulus = 1)} \<inter> set ms = ?A \<union> ?B"
  proof (intro equalityI subsetI)
    fix x assume x: "x \<in> {x. (case x of (vals, modulus) \<Rightarrow> without k vals = v \<and> modulus = 1)} \<inter> set ms"
    then obtain vals where xv: "x = (vals, 1)" "without k vals = v" "(vals, 1) \<in> set ms"
      by (cases x) auto
    then have "vals \<in> set (map fst ms)" by force
    with assms(2) have "vals \<in> set (product_repeat [0, 1] n)" by simp
    with assms(3) have len: "k < length vals" and bits: "set vals \<subseteq> {0, 1}"
      by (auto simp: in_product_repeat)
    from len have "vals ! k \<in> set vals" by simp
    with bits have bit: "vals ! k = 0 \<or> vals ! k = 1" by auto
    from completion_without [OF len] xv(2) have "vals = completion k (vals ! k) v" by simp
    with bit have "vals = ?c0 \<or> vals = ?c1" by auto
    with xv show "x \<in> ?A \<union> ?B" by auto
  next
    fix x assume "x \<in> ?A \<union> ?B"
    with kv show "x \<in> {x. (case x of (vals, modulus) \<Rightarrow> without k vals = v \<and> modulus = 1)} \<inter> set ms"
      by (auto simp: without_completion)
  qed
  then have "ones k v ms = int (card (?A \<union> ?B))"
    using dm by (simp add: ones_def distinct_length_filter)
  moreover have "?c0 \<noteq> ?c1" using completion_inj [OF kv, of 0 1] by auto
  then have "?A \<inter> ?B = {}" by auto
  then have "card (?A \<union> ?B) = card ?A + card ?B"
    by (intro card_Un_disjoint) auto
  moreover have "card ({(c, 1 :: int)} \<inter> set ms) = (if map_of ms c = Some 1 then 1 else 0)" for c
    using assms(1) by (auto simp: map_of_eq_Some_iff)
  ultimately show ?thesis by simp
qed

text \<open>
  C3. For an equation that satisfies the invariant and has \<open>symbol\<close> at position \<open>k\<close>,
  \<^verbatim>\<open>eliminate_symbol\<close> returns an equation over the variables without position
  \<open>k\<close>, which satisfies the invariant again (so its table is complete over the
  \<open>2 ^ (n - 1)\<close> remaining assignments), and a remaining assignment is forbidden exactly
  when both of its completions at position \<open>k\<close> are forbidden.
\<close>

theorem elimination_projects:
  assumes "well_formed eq" "k < length (symbols eq)" "symbols eq ! k = symbol"
  shows "\<exists>eq'. eliminate_symbol eq symbol = Inr eq' \<and>
     symbols eq' = without k (symbols eq) \<and> well_formed eq' \<and>
     length (moduli eq') = 2 ^ (length (symbols eq) - 1) \<and>
     (\<forall>v\<in>set (product_repeat [0, 1] (length (symbols eq) - 1)).
        map_of (moduli eq') v =
          Some (if map_of (moduli eq) (completion k 0 v) = Some 1 \<and>
                   map_of (moduli eq) (completion k 1 v) = Some 1 then 1 else 0))"
proof -
  let ?n = "length (symbols eq)"
  let ?ms = "moduli eq"
  let ?f = "\<lambda>(vals, count). (vals, if count = 2 then 1 else 0 :: int)"
  from assms(1) have ds: "distinct (symbols eq)" and dk: "distinct (map fst ?ms)"
    and keys: "set (map fst ?ms) = set (product_repeat [0, 1] ?n)"
    by (simp_all add: well_formed_def)
  from ds assms(2,3) have li: "list_index (symbols eq) symbol = Inr k"
    using list_index_distinct by blast
  have lens: "\<forall>(vals, modulus)\<in>set ?ms. k < length vals"
  proof (clarify)
    fix vals modulus assume "(vals, modulus) \<in> set ?ms"
    then have "vals \<in> set (map fst ?ms)" by force
    with keys assms(2) show "k < length vals" by (simp add: in_product_repeat)
  qed
  from count_loop_empty [OF li lens] obtain ec where
    r: "count_loop (symbols eq) symbol ?ms [] = Inr ec" and d: "distinct (map fst ec)"
    and ks: "set (map fst ec) = without k ` fst ` set ?ms"
    and vs: "\<forall>v\<in>set (map fst ec). map_of ec v = Some (ones k v ?ms)"
    by blast
  define eq' where "eq' = \<lparr>symbols = without k (symbols eq), moduli = map ?f ec\<rparr>"
  have ml: "moduli_loop ec [] = map ?f ec"
    using moduli_loop_result [OF d, of "[]"] by simp
  have res: "eliminate_symbol eq symbol = Inr eq'"
    using r li assms(2) ml by (simp add: eliminate_symbol_def list_pop_without eq'_def)
  have keys': "set (map fst ec) = set (product_repeat [0, 1] (?n - 1))"
    using ks keys without_image_product [OF assms(2)] by simp
  have fst_f: "map fst (map ?f ec) = map fst ec" by (induction ec) auto
  have len': "length (without k (symbols eq)) = ?n - 1"
    using assms(2) by (auto simp: without_def)
  have wf: "well_formed eq'"
    unfolding well_formed_def eq'_def
    using ds d keys' by (auto simp: distinct_without fst_f len' simp del: map_map split: if_splits)
  have "length (map fst ec) = card (set (map fst ec))"
    using d by (simp only: distinct_card)
  also have "\<dots> = length (product_repeat [0, 1 :: int] (?n - 1))"
    by (simp only: keys' distinct_card [OF distinct_product_repeat])
  finally have size: "length (moduli eq') = 2 ^ (?n - 1)"
    by (simp add: eq'_def length_product_repeat)
  have look: "map_of (moduli eq') v =
          Some (if map_of ?ms (completion k 0 v) = Some 1 \<and>
                   map_of ?ms (completion k 1 v) = Some 1 then 1 else 0)"
    if v: "v \<in> set (product_repeat [0, 1] (?n - 1))" for v
  proof -
    from v keys' vs have "map_of ec v = Some (ones k v ?ms)" by simp
    then have "map_of (map ?f ec) v = Some (if ones k v ?ms = 2 then 1 else 0)"
      by (simp add: map_of_map)
    moreover have "ones k v ?ms = 2 \<longleftrightarrow>
        map_of ?ms (completion k 0 v) = Some 1 \<and> map_of ?ms (completion k 1 v) = Some 1"
      by (simp add: ones_completions [OF dk keys assms(2) v])
    ultimately show ?thesis by (simp add: eq'_def)
  qed
  from res wf size look show ?thesis by (intro exI [of _ eq']) (simp add: eq'_def)
qed

section \<open>Failures\<close>

lemma balanced_from_repr:
  "in_grammar e \<Longrightarrow> 0 \<le> d \<Longrightarrow> balanced_from (Function_repr e @ r) d = balanced_from r d"
proof (induction e arbitrary: r d)
  case (SymbolFunction x)
  then obtain ch where "x = [ch]" "is_lower ch" by (cases x) auto
  then show ?case using is_lower_not_paren [of ch] by simp
next
  case (MultiplicationFunction e1 e2)
  then show ?case by simp
next
  case (NegationFunction e)
  then show ?case by simp
next
  case (ConstantFunction x)
  then show ?case by (auto simp: str_int_01)
qed

lemma parse_balanced:
  assumes "parse s = Inr e"
  shows "balanced s"
proof -
  from parse_sound [OF assms] have "Function_repr e = s" "in_grammar e" by simp_all
  with balanced_from_repr [of e 0 "[]"] show ?thesis by (simp add: balanced_def)
qed

lemma eliminate_symbol_absent:
  assumes "symbol \<notin> set (symbols eq)"
  shows "eliminate_symbol eq symbol = Inl ValueError"
proof -
  from assms have li: "list_index (symbols eq) symbol = Inl ValueError"
    by (rule list_index_absent)
  show ?thesis
  proof (cases "moduli eq")
    case Nil
    with li show ?thesis by (simp add: eliminate_symbol_def)
  next
    case (Cons p ms)
    obtain vals modulus where "p = (vals, modulus)" by (cases p)
    with Cons li show ?thesis by (simp add: eliminate_symbol_def)
  qed
qed

lemma parse_assertion:
  assumes "s \<noteq> []" "hd s = CHR ''(''" "length s \<noteq> 1" "take 3 s \<noteq> ''(1-''"
  shows "parse s = Inl AssertionError"
  using assms by (subst parse.simps) (simp add: Let_def)

lemma repr_notation_chars: "in_grammar e \<Longrightarrow> list_all notation_char (Function_repr e)"
proof (induction e)
  case (SymbolFunction x)
  then obtain ch where "x = [ch]" "is_lower ch" by (cases x) auto
  then show ?case by (simp add: notation_char_def)
next
  case (MultiplicationFunction e1 e2)
  then show ?case by simp
next
  case (NegationFunction e)
  then show ?case by (simp add: notation_char_def is_01_def)
next
  case (ConstantFunction x)
  then show ?case by (auto simp: str_int_01 notation_char_def is_01_def)
qed

lemma one_minus_follows_repr:
  "in_grammar e \<Longrightarrow> one_minus_follows (Function_repr e @ r) = one_minus_follows r"
proof (induction e arbitrary: r)
  case (SymbolFunction x)
  then obtain ch where "x = [ch]" "is_lower ch" by (cases x) auto
  then show ?case using is_lower_not_paren [of ch] by simp
next
  case (MultiplicationFunction e1 e2)
  then show ?case by simp
next
  case (NegationFunction e)
  then show ?case by simp
next
  case (ConstantFunction x)
  then show ?case by (auto simp: str_int_01)
qed

lemma parse_leading:
  assumes "\<not> is_lower c" "\<not> is_01 c" "c \<noteq> CHR ''(''"
  shows "parse (c # r) = Inl ValueError"
proof (cases "r = []")
  case True
  with assms show ?thesis by (simp add: parse_single)
next
  case False
  from parse_atom_unfold [OF assms(3) False] assms(1,2) show ?thesis
    by (simp add: parse_single)
qed

lemma parse_error_kinds: "parse s = Inl err \<Longrightarrow> err \<noteq> KeyError"
proof (induction s arbitrary: err rule: parse.induct)
  case (1 s)
  show ?case
  proof (cases "length s = 1")
    case True
    then obtain c where "s = [c]" by (cases s) auto
    with "1.prems" show ?thesis by (auto simp: parse_single split: if_splits)
  next
    case len: False
    show ?thesis
    proof (cases "s = []")
      case True
      with "1.prems" show ?thesis by (simp add: parse_Nil)
    next
      case ne: False
      show ?thesis
      proof (cases "hd s = CHR ''(''")
        case paren: True
        show ?thesis
        proof (cases "take 3 s = ''(1-''")
          case False
          from parse_assertion [OF ne paren len False] "1.prems" show ?thesis by simp
        next
          case tk: True
          let ?in = "case matching_parenthesis s of None \<Rightarrow> drop 3 s | Some t \<Rightarrow> drop 3 (take t s)"
          show ?thesis
          proof (cases "parse ?in")
            case (Inl e1)
            from "1.IH"(1) [OF len ne paren refl _ Inl] tk have "e1 \<noteq> KeyError" by simp
            moreover from Inl len ne paren tk have "parse s = Inl e1"
              by (subst parse.simps) (simp add: Let_def)
            ultimately show ?thesis using "1.prems" by simp
          next
            case (Inr inside)
            show ?thesis
            proof (cases "matching_parenthesis s")
              case None
              with Inr len ne paren tk have "parse s = Inl TypeError"
                by (subst parse.simps) (simp add: Let_def)
              with "1.prems" show ?thesis by simp
            next
              case (Some t)
              with Inr have ins: "parse (drop 3 (take t s)) = Inr inside" by simp
              note unf = parse_paren_unfold [OF paren len ne tk Some ins]
              show ?thesis
              proof (cases "int t \<noteq> int (length s) - 1")
                case True
                with unf "1.prems" have "parse (drop (t + 1) s) = Inl err"
                  by (auto split: sum.splits)
                from "1.IH"(2) [OF len ne paren refl _ Inr Some True this] tk show ?thesis by simp
              next
                case False
                with unf "1.prems" show ?thesis by simp
              qed
            qed
          qed
        qed
      next
        case nparen: False
        from ne obtain c r where cr: "s = c # r" by (cases s) auto
        with len have r: "r \<noteq> []" by auto
        from nparen cr have c: "c \<noteq> CHR ''(''" by simp
        note unf = parse_atom_unfold [OF c r]
        show ?thesis
        proof (cases "parse [c]")
          case (Inl e1)
          then have "e1 \<noteq> KeyError" by (auto simp: parse_single split: if_splits)
          with unf Inl "1.prems" cr show ?thesis by simp
        next
          case (Inr res)
          with unf "1.prems" cr have tl: "parse r = Inl err" by (auto split: sum.splits)
          from Inr cr have hd: "parse (take 1 s) = Inr res" by simp
          from len ne have c1: "int 0 \<noteq> int (length s) - 1" by (cases s) auto
          from tl cr have "parse (drop (0 + 1) s) = Inl err" by simp
          from "1.IH"(4) [OF len ne nparen hd c1 this] show ?thesis .
        qed
      qed
    qed
  qed
qed

text \<open>
  C6, as the code has it. Every invalid input fails, with a built-in exception.
  \<^verbatim>\<open>parse\<close> raises IndexError on the empty string, ValueError on a single character
  that is neither a lowercase letter nor 0 or 1 and on every string that starts with
  such a character other than \<open>(\<close>, and AssertionError on a string of more than one
  character that starts with \<open>(\<close> but not with \<open>(1-\<close>. It raises some exception, always one
  of IndexError, ValueError, AssertionError and TypeError, on every string that contains
  a character outside the notation, or an opening parenthesis that is not followed by
  \<open>1-\<close>, or unbalanced parentheses, and in general on every string that is not the text
  of an expression of the grammar; what it returns is an expression of the grammar that
  renders to the whole input, so no input is accepted in part. Evaluating an expression
  with a symbol that is not bound raises KeyError, the conjunction of equations over
  different variables raises AssertionError, and eliminating a symbol that is not a
  variable raises ValueError.
\<close>

theorem failures_raise:
  "parse [] = Inl IndexError
   \<and> (\<not> is_lower c \<and> \<not> is_01 c \<longrightarrow> parse [c] = Inl ValueError)
   \<and> (\<not> is_lower c \<and> \<not> is_01 c \<and> c \<noteq> CHR ''('' \<longrightarrow> parse (c # r) = Inl ValueError)
   \<and> (\<not> list_all notation_char s \<longrightarrow> (\<exists>err. parse s = Inl err))
   \<and> (s \<noteq> [] \<and> hd s = CHR ''('' \<and> length s \<noteq> 1 \<and> take 3 s \<noteq> ''(1-'' \<longrightarrow>
        parse s = Inl AssertionError)
   \<and> (\<not> one_minus_follows s \<longrightarrow> (\<exists>err. parse s = Inl err))
   \<and> (\<not> balanced s \<longrightarrow> (\<exists>err. parse s = Inl err))
   \<and> (\<not> (\<exists>e'. in_grammar e' \<and> Function_repr e' = s) \<longrightarrow> (\<exists>err. parse s = Inl err))
   \<and> (parse s = Inr e \<longrightarrow> in_grammar e \<and> Function_repr e = s)
   \<and> (parse s = Inl err \<longrightarrow>
        err = IndexError \<or> err = ValueError \<or> err = AssertionError \<or> err = TypeError)
   \<and> (vals symbol = None \<longrightarrow> Function_call (SymbolFunction symbol) vals = Inl KeyError)
   \<and> (symbol \<in> symbols_of f \<and> vals symbol = None \<longrightarrow> Function_call f vals = Inl KeyError)
   \<and> (symbols a \<noteq> symbols b \<longrightarrow> equation_conjunction a b = Inl AssertionError)
   \<and> (symbol \<notin> set (symbols eq) \<longrightarrow> eliminate_symbol eq symbol = Inl ValueError)"
proof -
  have fails: "\<exists>err. parse s = Inl err" if "\<And>e'. parse s = Inr e' \<Longrightarrow> False"
    using that by (cases "parse s") auto
  have 1: "parse [] = Inl IndexError" by (rule parse_Nil)
  have 2: "\<not> is_lower c \<and> \<not> is_01 c \<longrightarrow> parse [c] = Inl ValueError"
    by (simp add: parse_single)
  have 3: "\<not> is_lower c \<and> \<not> is_01 c \<and> c \<noteq> CHR ''('' \<longrightarrow> parse (c # r) = Inl ValueError"
    by (simp add: parse_leading)
  have 4: "\<not> list_all notation_char s \<longrightarrow> (\<exists>err. parse s = Inl err)"
  proof
    assume n: "\<not> list_all notation_char s"
    show "\<exists>err. parse s = Inl err"
    proof (rule fails)
      fix e' assume "parse s = Inr e'"
      from parse_sound [OF this] repr_notation_chars [of e'] n show False by auto
    qed
  qed
  have 5: "s \<noteq> [] \<and> hd s = CHR ''('' \<and> length s \<noteq> 1 \<and> take 3 s \<noteq> ''(1-'' \<longrightarrow>
        parse s = Inl AssertionError"
    by (simp add: parse_assertion)
  have 6: "\<not> one_minus_follows s \<longrightarrow> (\<exists>err. parse s = Inl err)"
  proof
    assume n: "\<not> one_minus_follows s"
    show "\<exists>err. parse s = Inl err"
    proof (rule fails)
      fix e' assume "parse s = Inr e'"
      from parse_sound [OF this] one_minus_follows_repr [of e' "[]"] n show False by auto
    qed
  qed
  have 7: "\<not> balanced s \<longrightarrow> (\<exists>err. parse s = Inl err)"
  proof
    assume n: "\<not> balanced s"
    show "\<exists>err. parse s = Inl err"
    proof (rule fails)
      fix e' assume "parse s = Inr e'"
      from parse_balanced [OF this] n show False by simp
    qed
  qed
  have 8: "\<not> (\<exists>e'. in_grammar e' \<and> Function_repr e' = s) \<longrightarrow> (\<exists>err. parse s = Inl err)"
  proof
    assume n: "\<not> (\<exists>e'. in_grammar e' \<and> Function_repr e' = s)"
    show "\<exists>err. parse s = Inl err"
    proof (rule fails)
      fix e' assume "parse s = Inr e'"
      from parse_sound [OF this] n show False by blast
    qed
  qed
  have 9: "parse s = Inr e \<longrightarrow> in_grammar e \<and> Function_repr e = s"
    using parse_sound [of s e] by blast
  have 10: "parse s = Inl err \<longrightarrow>
        err = IndexError \<or> err = ValueError \<or> err = AssertionError \<or> err = TypeError"
    using parse_error_kinds [of s err] by (cases err) auto
  have 11: "vals symbol = None \<longrightarrow> Function_call (SymbolFunction symbol) vals = Inl KeyError"
    by simp
  have 12: "symbol \<in> symbols_of f \<and> vals symbol = None \<longrightarrow> Function_call f vals = Inl KeyError"
    using call_unbound [of symbol f vals] by blast
  have 13: "symbols a \<noteq> symbols b \<longrightarrow> equation_conjunction a b = Inl AssertionError"
    by (simp add: equation_conjunction_def)
  have 14: "symbol \<notin> set (symbols eq) \<longrightarrow> eliminate_symbol eq symbol = Inl ValueError"
    using eliminate_symbol_absent [of symbol eq] by blast
  show ?thesis by (intro conjI 1 2 3 4 5 6 7 8 9 10 11 12 13 14)
qed

theorem failures_raise_witness:
  "parse ''?'' = Inl ValueError
   \<and> parse ''-x'' = Inl ValueError
   \<and> (\<exists>err. parse ''x?'' = Inl err)
   \<and> parse ''(x)y'' = Inl AssertionError
   \<and> (\<exists>err. parse ''x(y)'' = Inl err)
   \<and> (\<exists>err. parse ''(1-x'' = Inl err)
   \<and> (in_grammar (MultiplicationFunction (SymbolFunction ''x'') (SymbolFunction ''y''))
      \<and> Function_repr (MultiplicationFunction (SymbolFunction ''x'') (SymbolFunction ''y'')) = ''xy'')
   \<and> (TypeError = IndexError \<or> TypeError = ValueError \<or> TypeError = AssertionError
      \<or> TypeError = TypeError)
   \<and> Function_call (SymbolFunction ''x'') [''y'' \<mapsto> 1] = Inl KeyError
   \<and> Function_call (MultiplicationFunction (SymbolFunction ''y'') (SymbolFunction ''x''))
        [''y'' \<mapsto> 1] = Inl KeyError
   \<and> equation_conjunction \<lparr>symbols = [''x''], moduli = [([0], 0), ([1], 1)]\<rparr>
        \<lparr>symbols = [''y''], moduli = [([0], 0), ([1], 1)]\<rparr> = Inl AssertionError
   \<and> eliminate_symbol \<lparr>symbols = [''y''], moduli = [([0], 0), ([1], 1)]\<rparr> ''x'' = Inl ValueError"
proof -
  let ?xy = "MultiplicationFunction (SymbolFunction ''x'') (SymbolFunction ''y'')"
  let ?yx = "MultiplicationFunction (SymbolFunction ''y'') (SymbolFunction ''x'')"
  let ?ex = "\<lparr>symbols = [''x''], moduli = [([0], 0), ([1], 1 :: int)]\<rparr>"
  let ?ey = "\<lparr>symbols = [''y''], moduli = [([0], 0), ([1], 1 :: int)]\<rparr>"
  note t = failures_raise [where c = "CHR ''?''" and vals = "[''y'' \<mapsto> 1]" and symbol = "''x''"
      and f = ?yx and a = ?ex and b = ?ey and eq = ?ey]
  note l = failures_raise [where c = "CHR ''-''" and r = "''x''"]
  note u = failures_raise [where s = "''x?''"]
  note v = failures_raise [where s = "''(x)y''"]
  note w = failures_raise [where s = "''x(y)''"]
  note x = failures_raise [where s = "''(1-x''" and err = TypeError]
  note y = failures_raise [where s = "''xy''" and e = ?xy]
  have h2: "\<not> is_lower CHR ''?'' \<and> \<not> is_01 CHR ''?''" by (simp add: is_lower_def is_01_def)
  have h3: "\<not> is_lower CHR ''-'' \<and> \<not> is_01 CHR ''-'' \<and> CHR ''-'' \<noteq> CHR ''(''"
    by (simp add: is_lower_def is_01_def)
  have h4: "\<not> list_all notation_char ''x?''"
    by (simp add: notation_char_def is_lower_def is_01_def)
  have h5: "''(x)y'' \<noteq> [] \<and> hd ''(x)y'' = CHR ''('' \<and> length ''(x)y'' \<noteq> 1
      \<and> take 3 ''(x)y'' \<noteq> ''(1-''" by simp
  have h6: "\<not> one_minus_follows ''x(y)''" by simp
  have h7: "\<not> balanced ''(1-x''" by (simp add: balanced_def)
  have h8: "\<not> (\<exists>e'. in_grammar e' \<and> Function_repr e' = ''x?'')"
    using repr_notation_chars h4 by metis
  have h9: "parse ''xy'' = Inr ?xy" by code_simp
  have h10: "parse ''(1-x'' = Inl TypeError" by code_simp
  have h11: "[''y'' \<mapsto> 1 :: int] ''x'' = None" by simp
  have h12: "''x'' \<in> symbols_of ?yx \<and> [''y'' \<mapsto> 1 :: int] ''x'' = None" by simp
  have h13: "symbols ?ex \<noteq> symbols ?ey" by simp
  have h14: "''x'' \<notin> set (symbols ?ey)" by simp
  note r2 = t [THEN conjunct2, THEN conjunct1, THEN mp, OF h2]
  note r3 = l [THEN conjunct2, THEN conjunct2, THEN conjunct1, THEN mp, OF h3]
  note r4 = u [THEN conjunct2, THEN conjunct2, THEN conjunct2, THEN conjunct1, THEN mp, OF h4]
  note r5 = v [THEN conjunct2, THEN conjunct2, THEN conjunct2, THEN conjunct2, THEN conjunct1, THEN mp, OF h5]
  note r6 = w [THEN conjunct2, THEN conjunct2, THEN conjunct2, THEN conjunct2, THEN conjunct2, THEN conjunct1, THEN mp, OF h6]
  note r7 = x [THEN conjunct2, THEN conjunct2, THEN conjunct2, THEN conjunct2, THEN conjunct2, THEN conjunct2, THEN conjunct1, THEN mp, OF h7]
  note r8 = u [THEN conjunct2, THEN conjunct2, THEN conjunct2, THEN conjunct2, THEN conjunct2, THEN conjunct2, THEN conjunct2, THEN conjunct1, THEN mp, OF h8]
  note r9 = y [THEN conjunct2, THEN conjunct2, THEN conjunct2, THEN conjunct2, THEN conjunct2, THEN conjunct2, THEN conjunct2, THEN conjunct2, THEN conjunct1, THEN mp, OF h9]
  note r10 = x [THEN conjunct2, THEN conjunct2, THEN conjunct2, THEN conjunct2, THEN conjunct2, THEN conjunct2, THEN conjunct2, THEN conjunct2, THEN conjunct2, THEN conjunct1, THEN mp, OF h10]
  note r11 = t [THEN conjunct2, THEN conjunct2, THEN conjunct2, THEN conjunct2, THEN conjunct2, THEN conjunct2, THEN conjunct2, THEN conjunct2, THEN conjunct2, THEN conjunct2, THEN conjunct1, THEN mp, OF h11]
  note r12 = t [THEN conjunct2, THEN conjunct2, THEN conjunct2, THEN conjunct2, THEN conjunct2, THEN conjunct2, THEN conjunct2, THEN conjunct2, THEN conjunct2, THEN conjunct2, THEN conjunct2, THEN conjunct1, THEN mp, OF h12]
  note r13 = t [THEN conjunct2, THEN conjunct2, THEN conjunct2, THEN conjunct2, THEN conjunct2, THEN conjunct2, THEN conjunct2, THEN conjunct2, THEN conjunct2, THEN conjunct2, THEN conjunct2, THEN conjunct2, THEN conjunct1, THEN mp, OF h13]
  note r14 = t [THEN conjunct2, THEN conjunct2, THEN conjunct2, THEN conjunct2, THEN conjunct2, THEN conjunct2, THEN conjunct2, THEN conjunct2, THEN conjunct2, THEN conjunct2, THEN conjunct2, THEN conjunct2, THEN conjunct2, THEN mp, OF h14]
  show ?thesis by (intro conjI r2 r3 r4 r5 r6 r7 r8 r9 r10 r11 r12 r13 r14)
qed

text \<open>The four kinds of invalid text fail with four different exceptions, and the
  exception for an unknown variable is the one for an unrecognized character.\<close>

theorem error_kinds_counterexample:
  "parse [] = Inl IndexError \<and> parse ''?'' = Inl ValueError
   \<and> parse ''(x)'' = Inl AssertionError \<and> parse ''(1-x'' = Inl TypeError
   \<and> eliminate_symbol \<lparr>symbols = [''x''], moduli = [([0], 0), ([1], 1)]\<rparr> ''y'' = Inl ValueError"
  by code_simp

theorem conjunction_laws_witness:
  "equation_conjunction
      \<lparr>symbols = [''x'', ''y''], moduli = [([0, 0], 0), ([0, 1], 0), ([1, 0], 1), ([1, 1], 0)]\<rparr>
      \<lparr>symbols = [''x'', ''y''], moduli = [([0, 0], 1), ([0, 1], 0), ([1, 0], 0), ([1, 1], 0)]\<rparr>
    = Inr \<lparr>symbols = [''x'', ''y''], moduli = [([0, 0], 1), ([0, 1], 0), ([1, 0], 1), ([1, 1], 0)]\<rparr>
   \<and> equation_conjunction
      \<lparr>symbols = [''x'', ''y''], moduli = [([0, 0], 0), ([0, 1], 0), ([1, 0], 1), ([1, 1], 0)]\<rparr>
      \<lparr>symbols = [''x'', ''y''], moduli = [([0, 0], 1), ([0, 1], 0), ([1, 0], 0), ([1, 1], 0)]\<rparr>
    = equation_conjunction
      \<lparr>symbols = [''x'', ''y''], moduli = [([0, 0], 1), ([0, 1], 0), ([1, 0], 0), ([1, 1], 0)]\<rparr>
      \<lparr>symbols = [''x'', ''y''], moduli = [([0, 0], 0), ([0, 1], 0), ([1, 0], 1), ([1, 1], 0)]\<rparr>
   \<and> equation_conjunction
      \<lparr>symbols = [''x'', ''y''], moduli = [([0, 0], 0), ([0, 1], 0), ([1, 0], 1), ([1, 1], 0)]\<rparr>
      \<lparr>symbols = [''x'', ''y''], moduli = [([0, 0], 0), ([0, 1], 0), ([1, 0], 1), ([1, 1], 0)]\<rparr>
    = Inr \<lparr>symbols = [''x'', ''y''], moduli = [([0, 0], 0), ([0, 1], 0), ([1, 0], 1), ([1, 1], 0)]\<rparr>"
proof -
  let ?a = "\<lparr>symbols = [''x'', ''y''], moduli = [([0, 0], 0), ([0, 1], 0), ([1, 0], 1), ([1, 1], 0 :: int)]\<rparr>"
  let ?b = "\<lparr>symbols = [''x'', ''y''], moduli = [([0, 0], 1), ([0, 1], 0), ([1, 0], 0), ([1, 1], 0 :: int)]\<rparr>"
  have wa: "well_formed ?a" by (simp add: well_formed_def product_step_def)
  have wb: "well_formed ?b" by (simp add: well_formed_def product_step_def)
  have s: "symbols ?a = symbols ?b" by simp
  have k: "map fst (moduli ?a) = map fst (moduli ?b)" by simp
  have v: "equation_conjunction ?a ?b =
      Inr \<lparr>symbols = [''x'', ''y''], moduli = [([0, 0], 1), ([0, 1], 0), ([1, 0], 1), ([1, 1], 0)]\<rparr>"
    by code_simp
  from conjunction_laws [OF wa wb wb s refl] k obtain ab ba where
    "equation_conjunction ?a ?b = Inr ab" "equation_conjunction ?b ?a = Inr ba" "ab = ba"
    "equation_conjunction ?a ?a = Inr ?a"
    by blast
  with v show ?thesis by simp
qed

theorem elimination_projects_witness:
  "well_formed \<lparr>symbols = [''x'', ''y''],
       moduli = [([0, 0], 0), ([0, 1], 0), ([1, 0], 1), ([1, 1], 1)]\<rparr>
   \<and> eliminate_symbol \<lparr>symbols = [''x'', ''y''],
       moduli = [([0, 0], 0), ([0, 1], 0), ([1, 0], 1), ([1, 1], 1)]\<rparr> ''y''
     = Inr \<lparr>symbols = [''x''], moduli = [([0], 0), ([1], 1)]\<rparr>
   \<and> (\<exists>eq'. eliminate_symbol \<lparr>symbols = [''x'', ''y''],
       moduli = [([0, 0], 0), ([0, 1], 0), ([1, 0], 1), ([1, 1], 1)]\<rparr> ''y'' = Inr eq'
       \<and> well_formed eq' \<and> length (moduli eq') = 2 \<and> map_of (moduli eq') [1] = Some 1)"
proof -
  let ?eq = "\<lparr>symbols = [''x'', ''y''],
       moduli = [([0, 0], 0), ([0, 1], 0), ([1, 0], 1), ([1, 1], 1 :: int)]\<rparr>"
  have w: "well_formed ?eq" by (simp add: well_formed_def product_step_def)
  have k: "1 < length (symbols ?eq)" and s: "symbols ?eq ! 1 = ''y''" by simp_all
  have v: "eliminate_symbol ?eq ''y'' = Inr \<lparr>symbols = [''x''], moduli = [([0], 0), ([1], 1)]\<rparr>"
    by code_simp
  have m: "[1] \<in> set (product_repeat [0, 1 :: int] (length (symbols ?eq) - 1))"
    by (simp add: product_step_def)
  have c: "map_of (moduli ?eq) (completion 1 0 [1]) = Some 1
      \<and> map_of (moduli ?eq) (completion 1 1 [1]) = Some 1"
    by (simp add: completion_def)
  from elimination_projects [OF w k s] obtain eq' where
    r: "eliminate_symbol ?eq ''y'' = Inr eq'" "well_formed eq'"
      "length (moduli eq') = 2 ^ (length (symbols ?eq) - 1)"
    and l: "\<forall>v\<in>set (product_repeat [0, 1] (length (symbols ?eq) - 1)).
        map_of (moduli eq') v =
          Some (if map_of (moduli ?eq) (completion 1 0 v) = Some 1 \<and>
                   map_of (moduli ?eq) (completion 1 1 v) = Some 1 then 1 else 0)"
    by blast
  from l m c have "map_of (moduli eq') [1] = Some 1" by (simp del: product_repeat.simps)
  with r have "\<exists>eq'. eliminate_symbol ?eq ''y'' = Inr eq'
       \<and> well_formed eq' \<and> length (moduli eq') = 2 \<and> map_of (moduli eq') [1] = Some 1"
    by (intro exI [of _ eq']) simp
  with w v show ?thesis by blast
qed

end
